theory Spec2Isabelle
  imports Main "HOL-Library.Word" "HOL-Library.Signed_Division" "HOL-Library.Sublist"
    "HOL-Library.Multiset"
begin

unbundle bit_operations_syntax

section \<open>NIC endpoint (simplenic.cc): configuration and rate limiter\<close>

type_synonym byte = "8 word"
type_synonym u16 = "16 word"
type_synonym u32 = "32 word"
type_synonym u64 = "64 word"

definition MAX_BANDWIDTH :: int where
  "MAX_BANDWIDTH = 800"

definition MAX_BANDWIDTH_BITS :: nat where
  "MAX_BANDWIDTH_BITS = 10"

text \<open>
  The loop of \<^verbatim>\<open>simplify_frac\<close>: \<^verbatim>\<open>while (b > 0) { t = b; b = a % b; a = t; }\<close>.
  C's \<^verbatim>\<open>%\<close> truncates towards zero (\<open>smod\<close>).
\<close>

function gcd_loop :: "int \<Rightarrow> int \<Rightarrow> int" where
  "gcd_loop a b = (if b > 0 then gcd_loop b (a smod b) else a)"
  by pat_completeness auto
termination
proof (relation "measure (\<lambda>(a, b). nat b)")
  fix a b :: int
  assume b: "0 < b"
  have "\<bar>a\<bar> mod b < b" and "0 \<le> \<bar>a\<bar> mod b"
    using b by simp_all
  moreover have "a smod b = sgn a * (\<bar>a\<bar> mod b)"
    using b by (simp add: smod_int_alt_def)
  ultimately have "a smod b < b"
    by (cases "0 < a"; cases "a = 0") (simp_all add: sgn_if)
  then show "((b, a smod b), (a, b)) \<in> measure (\<lambda>(a, b). nat b)"
    using b by simp
qed simp

declare gcd_loop.simps [simp del]

text \<open>
  \<^verbatim>\<open>simplify_frac(n, d, &nn, &dd)\<close>; the two divisions by \<open>a\<close> are undefined in C
  when \<open>a = 0\<close>, which is the result \<open>None\<close>.
\<close>

definition simplify_frac :: "int \<Rightarrow> int \<Rightarrow> (int \<times> int) option" where
  "simplify_frac n d =
     (let a = gcd_loop n d
      in if a = 0 then None else Some (n sdiv a, d sdiv a))"

datatype nic_error = AssertFailed | Abort | Exit int | Undefined

subsection \<open>Derived constants\<close>

definition PCIE_WIDTH_BITS :: int where
  "PCIE_WIDTH_BITS = 512"

definition VAL_BITS :: int where
  "VAL_BITS = 3"

definition EXTRA_BYTES :: int where
  "EXTRA_BYTES = 1"

definition FLIT_WIDTH_BITS :: int where
  "FLIT_WIDTH_BITS = 256"

definition BUF_WIDTH_BITS :: int where
  "BUF_WIDTH_BITS = 64"

text \<open>\<^verbatim>\<open>TOKENS_PER_BIGTOKEN\<close> of simplenic.cc (the switch has its own).\<close>

definition TOKENS_PER_BIGTOKEN_nic :: int where
  "TOKENS_PER_BIGTOKEN_nic = PCIE_WIDTH_BITS sdiv (FLIT_WIDTH_BITS + VAL_BITS)"

subsection \<open>The endpoint object\<close>

text \<open>
  The two pairs of buffers are held as handles into a store of byte regions, so that
  in loopback mode \<^verbatim>\<open>pcis_write_bufs[j] = pcis_read_bufs[j]\<close> is the same region.
\<close>

record simplenic =
  loopback :: bool
  mac_lendian :: u64
  LINKLATENCY :: int
  rlimit_inc :: int
  rlimit_period :: int
  rlimit_size :: int
  currentround :: int
  pcis_read_bufs :: "nat list"
  pcis_write_bufs :: "nat list"

definition SIMLATENCY_BT :: "simplenic \<Rightarrow> int" where
  "SIMLATENCY_BT nic = LINKLATENCY nic sdiv TOKENS_PER_BIGTOKEN_nic"

definition BUF_BYTES :: "simplenic \<Rightarrow> int" where
  "BUF_BYTES nic = SIMLATENCY_BT nic * BUF_WIDTH_BITS"

subsection \<open>The constructor\<close>

text \<open>
  The C library calls of the constructor are parameters: \<open>atoi\<close>, the
  \<^verbatim>\<open>sscanf(macstring, "%x:%x:%x:%x:%x:%x%c", ...)\<close> call (the number of items it
  assigned and the octets it stored) and whether \<^verbatim>\<open>fopen\<close> of the log file succeeds.
\<close>

record libc =
  atoi :: "string \<Rightarrow> int"
  sscanf_mac :: "string \<Rightarrow> nat \<times> (nat \<Rightarrow> int)"
  fopen_ok :: "string \<Rightarrow> bool"

text \<open>The local variables and the fields the argument loop assigns, with what went to stderr.\<close>

record ctor_vars =
  niclogfile :: "string option"
  shmemportname :: "string option"
  netbw :: int
  netburst :: int
  v_loopback :: bool
  v_mac_lendian :: u64
  v_LINKLATENCY :: int
  v_stderr :: "string list"

definition ctor_start :: ctor_vars where
  "ctor_start =
     \<lparr>niclogfile = None, shmemportname = None, netbw = MAX_BANDWIDTH, netburst = 8,
      v_loopback = False, v_mac_lendian = 0, v_LINKLATENCY = 0, v_stderr = []\<rparr>"

definition mac_bytes_or :: "(nat \<Rightarrow> int) \<Rightarrow> u64 \<Rightarrow> u64" where
  "mac_bytes_or mac_octets m =
     fold (\<lambda>i acc. acc OR push_bit (8 * i) (ucast (word_of_int (mac_octets i) :: byte)))
       [0..<6] m"

text \<open>
  One pass of the loop \<^verbatim>\<open>for (auto &arg: args)\<close>; \<open>num\<close> is
  \<^verbatim>\<open>std::to_string(simplenicno)\<close>. The tests are independent \<^verbatim>\<open>if\<close>s, and
  \<^verbatim>\<open>arg.find(p) == 0\<close> says that \<open>p\<close> is a prefix of \<open>arg\<close>.
\<close>

definition handle_arg :: "libc \<Rightarrow> string \<Rightarrow> string \<Rightarrow> ctor_vars \<Rightarrow> ctor_vars" where
  "handle_arg lc num arg v0 =
     (let num_equals = num @ ''='';
          niclog_arg = ''+niclog'' @ num_equals;
          nicloopback_arg = ''+nic-loopback'' @ num;
          macaddr_arg = ''+macaddr'' @ num_equals;
          netbw_arg = ''+netbw'' @ num_equals;
          netburst_arg = ''+netburst'' @ num_equals;
          linklatency_arg = ''+linklatency'' @ num_equals;
          shmemportname_arg = ''+shmemportname'' @ num_equals;
          v1 = (if prefix niclog_arg arg
                then v0\<lparr>niclogfile := Some (drop (length niclog_arg) arg)\<rparr> else v0);
          v2 = (if prefix nicloopback_arg arg then v1\<lparr>v_loopback := True\<rparr> else v1);
          v3 = (if prefix macaddr_arg arg
                then (case sscanf_mac lc (drop (length macaddr_arg) arg) of
                        (n, mac_octets) \<Rightarrow>
                          if 6 = n
                          then v2\<lparr>v_mac_lendian := mac_bytes_or mac_octets (v_mac_lendian v2)\<rparr>
                          else v2\<lparr>v_stderr := v_stderr v2 @
                                  [''INVALID MAC ADDRESS SUPPLIED WITH +macaddrN='']\<rparr>)
                else v2);
          v4 = (if prefix netbw_arg arg
                then v3\<lparr>netbw := atoi lc (drop (length netbw_arg) arg)\<rparr> else v3);
          v5 = (if prefix netburst_arg arg
                then v4\<lparr>netburst := atoi lc (drop (length netburst_arg) arg)\<rparr> else v4);
          v6 = (if prefix linklatency_arg arg
                then v5\<lparr>v_LINKLATENCY := atoi lc (drop (length linklatency_arg) arg)\<rparr> else v5)
      in if prefix shmemportname_arg arg
         then v6\<lparr>shmemportname := Some (drop (length shmemportname_arg) arg)\<rparr> else v6)"

definition parse_args :: "libc \<Rightarrow> string \<Rightarrow> string list \<Rightarrow> ctor_vars" where
  "parse_args lc num args = fold (handle_arg lc num) args ctor_start"

text \<open>
  The constructor after the loop: the three assertions, the reduction of
  \<open>(netbw, MAX_BANDWIDTH)\<close>, the log file and the buffers. Outside loopback the four
  shared regions are distinct mappings; in loopback each write buffer is its read buffer.
  \<^verbatim>\<open>currentround\<close> starts at 0.
\<close>

definition ctor_finish :: "libc \<Rightarrow> ctor_vars \<Rightarrow> nic_error + simplenic" where
  "ctor_finish lc v =
     (if \<not> v_LINKLATENCY v > 0 then Inl AssertFailed
      else if \<not> netburst v < 256 then Inl AssertFailed
      else if \<not> netbw v \<le> MAX_BANDWIDTH then Inl AssertFailed
      else case simplify_frac (netbw v) MAX_BANDWIDTH of
             None \<Rightarrow> Inl Undefined
           | Some (nn, dd) \<Rightarrow>
               let nic = \<lparr>loopback = v_loopback v, mac_lendian = v_mac_lendian v,
                          LINKLATENCY = v_LINKLATENCY v, rlimit_inc = nn, rlimit_period = dd,
                          rlimit_size = netburst v, currentround = 0,
                          pcis_read_bufs = [], pcis_write_bufs = []\<rparr>
               in if (case niclogfile v of None \<Rightarrow> False | Some f \<Rightarrow> \<not> fopen_ok lc f)
                  then Inl Abort
                  else if \<not> v_loopback v
                  then (if shmemportname v = None then Inl AssertFailed
                        else Inr (nic\<lparr>pcis_read_bufs := [0, 2], pcis_write_bufs := [1, 3]\<rparr>))
                  else Inr (nic\<lparr>pcis_read_bufs := [0, 1], pcis_write_bufs := [0, 1]\<rparr>))"

definition simplenic_ctor :: "libc \<Rightarrow> string \<Rightarrow> string list \<Rightarrow> nic_error + simplenic" where
  "simplenic_ctor lc num args = ctor_finish lc (parse_args lc num args)"

subsection \<open>The world outside the endpoint\<close>

datatype reg = macaddr_upper | macaddr_lower | rlimit_settings | outgoing_count | incoming_count

text \<open>
  What the endpoint does to the outside, in order: MMIO writes, DMA transfers (buffer
  handle and requested size) and the stores to a buffer's sentinel byte, which the peer
  process observes. The byte regions are kept in a list; a handle is an index into it.
\<close>

datatype event =
    MmioWrite reg u32
  | DmaPull nat u32
  | DmaPush nat u32
  | StoreByte nat nat byte

record world =
  bufs :: "byte list list"
  trace :: "event list"

datatype 'a outcome = Continue 'a world | Return world | Fatal nic_error world

definition emit :: "event list \<Rightarrow> world \<Rightarrow> world" where
  "emit es w = w\<lparr>trace := trace w @ es\<rparr>"

text \<open>The value of the \<^verbatim>\<open>int\<close> expression \<^verbatim>\<open>init()\<close> writes to \<^verbatim>\<open>rlimit_settings\<close>.\<close>

definition rlimit_settings_value :: "simplenic \<Rightarrow> int" where
  "rlimit_settings_value nic =
     (push_bit (2 * MAX_BANDWIDTH_BITS) (rlimit_inc nic))
       OR (push_bit MAX_BANDWIDTH_BITS (rlimit_period nic - 1))
       OR rlimit_size nic"

text \<open>
  \<^verbatim>\<open>init()\<close>. The registers hold 32 bits. \<open>oc\<close> and \<open>ic\<close> are what the two
  \<^verbatim>\<open>read\<close> calls return, \<open>pushed\<close> what \<^verbatim>\<open>push\<close> returns.
\<close>

definition init :: "u32 \<Rightarrow> u32 \<Rightarrow> u32 \<Rightarrow> simplenic \<Rightarrow> world \<Rightarrow> unit outcome" where
  "init oc ic pushed nic w =
     (let w1 = emit [MmioWrite macaddr_upper (ucast (drop_bit 32 (mac_lendian nic) AND 0xFFFF)),
                     MmioWrite macaddr_lower (ucast (mac_lendian nic AND 0xFFFFFFFF)),
                     MmioWrite rlimit_settings (word_of_int (rlimit_settings_value nic))] w;
          output_tokens_available = oc;
          input_token_capacity = word_of_int (SIMLATENCY_BT nic) - ic
      in if input_token_capacity \<noteq> word_of_int (SIMLATENCY_BT nic)
            \<or> output_tokens_available \<noteq> (if TOKENS_PER_BIGTOKEN_nic = 1 then 1 else 0)
         then Fatal (Exit 1) w1
         else let w2 = emit [DmaPush (pcis_write_bufs nic ! 1)
                               (word_of_int BUF_WIDTH_BITS * input_token_capacity)] w1
              in if pushed \<noteq> input_token_capacity * word_of_int BUF_WIDTH_BITS
                 then Fatal (Exit 1) w2
                 else Continue () w2)"

definition world_of :: "'a outcome \<Rightarrow> world" where
  "world_of r = (case r of Continue _ w \<Rightarrow> w | Return w \<Rightarrow> w | Fatal _ w \<Rightarrow> w)"

subsection \<open>One iteration of the loop of \<^verbatim>\<open>tick()\<close>\<close>

text \<open>
  What the outside answers during one iteration: the two counters read over MMIO, the
  bytes the DMA delivers and the count \<^verbatim>\<open>pull\<close> returns, the successive values the
  busy-wait reads at the peer's sentinel, and the count \<^verbatim>\<open>push\<close> returns.
\<close>

record tick_env =
  outgoing_count_rd :: u32
  incoming_count_rd :: u32
  pull_data :: "byte list"
  pull_ret :: u32
  polled :: "nat \<Rightarrow> byte"
  push_ret :: u32

text \<open>\<^verbatim>\<open>buf[off] = v\<close> on the region with handle \<open>h\<close>; outside the region it is undefined.\<close>

definition store_byte :: "nat \<Rightarrow> int \<Rightarrow> byte \<Rightarrow> world \<Rightarrow> world option" where
  "store_byte h off v w =
     (if h < length (bufs w) \<and> 0 \<le> off \<and> off < int (length (bufs w ! h))
      then Some (w\<lparr>bufs := (bufs w)[h := (bufs w ! h)[nat off := v]],
                   trace := trace w @ [StoreByte h (nat off) v]\<rparr>)
      else None)"

text \<open>\<^verbatim>\<open>pull(dma_addr, buf, size)\<close>: the DMA stores at most \<open>size\<close> bytes at the start of the region.\<close>

definition dma_pull :: "nat \<Rightarrow> u32 \<Rightarrow> byte list \<Rightarrow> world \<Rightarrow> world option" where
  "dma_pull h sz data w =
     (let d = take (unat sz) data
      in if h < length (bufs w) \<and> length d \<le> length (bufs w ! h)
         then Some (w\<lparr>bufs := (bufs w)[h := d @ drop (length d) (bufs w ! h)],
                      trace := trace w @ [DmaPull h sz]\<rparr>)
         else None)"

text \<open>\<^verbatim>\<open>push(dma_addr, buf, size)\<close> reads \<open>size\<close> bytes of the region.\<close>

definition dma_push :: "nat \<Rightarrow> u32 \<Rightarrow> world \<Rightarrow> world option" where
  "dma_push h sz w =
     (if h < length (bufs w) \<and> unat sz \<le> length (bufs w ! h)
      then Some (emit [DmaPush h sz] w) else None)"

text \<open>
  \<^verbatim>\<open>while (*polladdr == 0) { ; }\<close> on the volatile sentinel: \<open>f k\<close> is the value of the
  \<open>k\<close>-th read. The loop need not end.
\<close>

partial_function (option) poll_sentinel :: "(nat \<Rightarrow> byte) \<Rightarrow> nat \<Rightarrow> nat option" where
  "poll_sentinel f k = (if f k = 0 then poll_sentinel f (Suc k) else Some k)"

text \<open>
  The body of \<^verbatim>\<open>while (true)\<close> in \<^verbatim>\<open>tick()\<close>: \<open>Return\<close> is the \<^verbatim>\<open>return\<close>,
  \<open>Fatal (Exit 1)\<close> the two \<^verbatim>\<open>exit(1)\<close>, \<open>Continue\<close> the end of the body, after which the
  loop runs it again; \<open>None\<close> is a busy-wait that never ends. The arithmetic on the token
  counts is \<^verbatim>\<open>uint32_t\<close>. Logging and the counter \<^verbatim>\<open>iter\<close> that only the log prints
  are left out.
\<close>

definition tick_iter :: "tick_env \<Rightarrow> simplenic \<Rightarrow> world \<Rightarrow> simplenic outcome option" where
  "tick_iter env nic w =
     (let output_tokens_available = outgoing_count_rd env;
          input_token_capacity = word_of_int (SIMLATENCY_BT nic) - incoming_count_rd env;
          tokens_this_round = min output_tokens_available input_token_capacity
      in if tokens_this_round \<noteq> word_of_int (SIMLATENCY_BT nic) then Some (Return w)
         else if \<not> (0 \<le> currentround nic \<and> currentround nic < 2) then Some (Fatal Undefined w)
         else
           let rb = pcis_read_bufs nic ! nat (currentround nic);
               wb = pcis_write_bufs nic ! nat (currentround nic)
           in case dma_pull rb (word_of_int BUF_WIDTH_BITS * tokens_this_round) (pull_data env) w of
                None \<Rightarrow> Some (Fatal Undefined w)
              | Some w1 \<Rightarrow>
             (case store_byte rb (BUF_BYTES nic) 1 w1 of
                None \<Rightarrow> Some (Fatal Undefined w1)
              | Some w2 \<Rightarrow>
                  if pull_ret env \<noteq> tokens_this_round * word_of_int BUF_WIDTH_BITS
                  then Some (Fatal (Exit 1) w2)
                  else
                    (case (if \<not> loopback nic then poll_sentinel (polled env) 0 else Some 0) of
                       None \<Rightarrow> None
                     | Some _ \<Rightarrow>
                    (case dma_push wb (word_of_int BUF_WIDTH_BITS * tokens_this_round) w2 of
                       None \<Rightarrow> Some (Fatal Undefined w2)
                     | Some w3 \<Rightarrow>
                    (case store_byte wb (BUF_BYTES nic) 0 w3 of
                       None \<Rightarrow> Some (Fatal Undefined w3)
                     | Some w4 \<Rightarrow>
                         if push_ret env \<noteq> tokens_this_round * word_of_int BUF_WIDTH_BITS
                         then Some (Fatal (Exit 1) w4)
                         else Some (Continue
                                (nic\<lparr>currentround := (currentround nic + 1) smod 2\<rparr>) w4))))))"

text \<open>The constructor's buffers: two handles each way, every region of \<open>BUF_BYTES + EXTRA_BYTES\<close> bytes.\<close>

definition nic_ready :: "simplenic \<Rightarrow> world \<Rightarrow> bool" where
  "nic_ready nic w \<longleftrightarrow>
     0 < LINKLATENCY nic
     \<and> (currentround nic = 0 \<or> currentround nic = 1)
     \<and> length (pcis_read_bufs nic) = 2 \<and> length (pcis_write_bufs nic) = 2
     \<and> list_all (\<lambda>h. h < length (bufs w)
                        \<and> int (length (bufs w ! h)) = BUF_BYTES nic + EXTRA_BYTES)
          (pcis_read_bufs nic @ pcis_write_bufs nic)"

text \<open>Two endpoints with a link latency of one cycle, and a store of four zeroed regions.\<close>

definition loopback_nic :: simplenic where
  "loopback_nic =
     \<lparr>loopback = True, mac_lendian = 0, LINKLATENCY = 1, rlimit_inc = 1, rlimit_period = 1,
      rlimit_size = 8, currentround = 0, pcis_read_bufs = [0, 1], pcis_write_bufs = [0, 1]\<rparr>"

definition shmem_nic :: simplenic where
  "shmem_nic =
     \<lparr>loopback = False, mac_lendian = 0, LINKLATENCY = 1, rlimit_inc = 1, rlimit_period = 1,
      rlimit_size = 8, currentround = 1, pcis_read_bufs = [0, 2], pcis_write_bufs = [1, 3]\<rparr>"

definition fresh_world :: world where
  "fresh_world = \<lparr>bufs = replicate 4 (replicate 65 0), trace = []\<rparr>"

section \<open>Big-token codec (flit.h, with the constants of switch.cc)\<close>

definition FLIT_SIZE_BITS :: int where
  "FLIT_SIZE_BITS = 64"

definition BIGTOKEN_SIZE_BITS :: int where
  "BIGTOKEN_SIZE_BITS = 512"

definition FLIT_SIZE_BYTES :: int where
  "FLIT_SIZE_BYTES = FLIT_SIZE_BITS sdiv 8"

definition BIGTOKEN_SIZE_BYTES :: int where
  "BIGTOKEN_SIZE_BYTES = BIGTOKEN_SIZE_BITS sdiv 8"

definition TOKENS_PER_BIGTOKEN :: int where
  "TOKENS_PER_BIGTOKEN =
     uint (word_of_int ((BIGTOKEN_SIZE_BYTES * 8) sdiv (FLIT_SIZE_BITS + 3)) :: u16)"

definition BROADCAST_ADJUSTED :: u16 where
  "BROADCAST_ADJUSTED = 0xffff"

subsection \<open>Checked memory access\<close>

text \<open>
  A buffer is the list of its bytes and a pointer into it is an offset. Reading or writing
  outside the buffer is undefined in C; here it is \<open>None\<close>.
\<close>

definition peek :: "byte list \<Rightarrow> int \<Rightarrow> byte option" where
  "peek buf i = (if 0 \<le> i \<and> i < int (length buf) then Some (buf ! nat i) else None)"

definition poke :: "byte list \<Rightarrow> int \<Rightarrow> byte \<Rightarrow> byte list option" where
  "poke buf i v = (if 0 \<le> i \<and> i < int (length buf) then Some (buf[nat i := v]) else None)"

definition memread :: "byte list \<Rightarrow> int \<Rightarrow> int \<Rightarrow> byte list option" where
  "memread buf off n =
     (if 0 \<le> off \<and> 0 \<le> n \<and> off + n \<le> int (length buf)
      then Some (take (nat n) (drop (nat off) buf)) else None)"

text \<open>\<^verbatim>\<open>memcpy(dst + off, src, n)\<close> with \<open>src\<close> the bytes at the source pointer.\<close>

definition memcpy :: "byte list \<Rightarrow> int \<Rightarrow> byte list \<Rightarrow> int \<Rightarrow> byte list option" where
  "memcpy dst off src n =
     (if 0 \<le> off \<and> 0 \<le> n \<and> off + n \<le> int (length dst) \<and> n \<le> int (length src)
      then Some (take (nat off) dst @ take (nat n) src @ drop (nat (off + n)) dst)
      else None)"

subsection \<open>The codec\<close>

text \<open>
  \<^verbatim>\<open>get_flit\<close> returns a pointer into \<^verbatim>\<open>recv_buf\<close>: here its offset. \<^verbatim>\<open>/\<close> and
  \<^verbatim>\<open>%\<close> on \<^verbatim>\<open>int\<close> truncate (\<open>sdiv\<close>, \<open>smod\<close>). The \<^verbatim>\<open>printf\<close> calls of the
  writers and of the two tests read the first 32 bytes of the big-token they work on and
  are left out; the one of \<^verbatim>\<open>get_port_from_flit\<close> is modelled below.
\<close>

definition get_flit :: "int \<Rightarrow> int" where
  "get_flit tokenid =
     (let base = tokenid sdiv TOKENS_PER_BIGTOKEN;
          offset = tokenid smod TOKENS_PER_BIGTOKEN
      in base * BIGTOKEN_SIZE_BYTES + FLIT_SIZE_BYTES * (offset + 1))"

definition write_flit :: "byte list \<Rightarrow> int \<Rightarrow> byte list \<Rightarrow> byte list option" where
  "write_flit send_buf tokenid flit_buf =
     (let base = tokenid sdiv TOKENS_PER_BIGTOKEN;
          offset = tokenid smod TOKENS_PER_BIGTOKEN
      in memcpy send_buf (base * BIGTOKEN_SIZE_BYTES + FLIT_SIZE_BYTES * (offset + 1))
           flit_buf FLIT_SIZE_BYTES)"

text \<open>
  \<^verbatim>\<open>*(lrv + (bitoffset / 8)) |= (1 << (bitoffset % 8))\<close>: the byte is promoted to
  \<^verbatim>\<open>int\<close>, or-ed, and stored back as a byte. \<open>write_last_flit_store\<close> is the store in the
  body of \<^verbatim>\<open>write_last_flit\<close>; the function itself, which ends without returning the
  \<^verbatim>\<open>int\<close> it declares, follows below.
\<close>

definition write_valid_flit :: "byte list \<Rightarrow> int \<Rightarrow> byte list option" where
  "write_valid_flit send_buf tokenid =
     (let base = tokenid sdiv TOKENS_PER_BIGTOKEN;
          offset = tokenid smod TOKENS_PER_BIGTOKEN;
          lrv = base * BIGTOKEN_SIZE_BYTES;
          bitoffset = (FLIT_SIZE_BITS - (TOKENS_PER_BIGTOKEN * 3)) + (offset * 3)
      in case peek send_buf (lrv + bitoffset sdiv 8) of
           None \<Rightarrow> None
         | Some b \<Rightarrow>
             poke send_buf (lrv + bitoffset sdiv 8)
               (word_of_int (uint b OR push_bit (nat (bitoffset smod 8)) 1)))"

definition write_last_flit_store :: "byte list \<Rightarrow> int \<Rightarrow> bool \<Rightarrow> byte list option" where
  "write_last_flit_store send_buf tokenid is_last =
     (let base = tokenid sdiv TOKENS_PER_BIGTOKEN;
          offset = tokenid smod TOKENS_PER_BIGTOKEN;
          lrv = base * BIGTOKEN_SIZE_BYTES;
          bitoffset = (FLIT_SIZE_BITS - (TOKENS_PER_BIGTOKEN * 3)) + 2 + (offset * 3)
      in case peek send_buf (lrv + bitoffset sdiv 8) of
           None \<Rightarrow> None
         | Some b \<Rightarrow>
             poke send_buf (lrv + bitoffset sdiv 8)
               (word_of_int (uint b OR push_bit (nat (bitoffset smod 8)) (of_bool is_last))))"

text \<open>
  \<^verbatim>\<open>return *(lrv + (bitoffset / 8)) >> (bitoffset % 8);\<close> in a function returning
  \<^verbatim>\<open>bool\<close>: the shifted byte is converted to \<^verbatim>\<open>bool\<close>, true when it is not 0.
\<close>

definition is_valid_flit :: "byte list \<Rightarrow> int \<Rightarrow> bool option" where
  "is_valid_flit recv_buf tokenid =
     (let base = tokenid sdiv TOKENS_PER_BIGTOKEN;
          offset = tokenid smod TOKENS_PER_BIGTOKEN;
          lrv = base * BIGTOKEN_SIZE_BYTES;
          bitoffset = (FLIT_SIZE_BITS - (TOKENS_PER_BIGTOKEN * 3)) + (offset * 3)
      in case peek recv_buf (lrv + bitoffset sdiv 8) of
           None \<Rightarrow> None
         | Some b \<Rightarrow> Some (drop_bit (nat (bitoffset smod 8)) (uint b) \<noteq> 0))"

definition is_last_flit :: "byte list \<Rightarrow> int \<Rightarrow> bool option" where
  "is_last_flit recv_buf tokenid =
     (let base = tokenid sdiv TOKENS_PER_BIGTOKEN;
          offset = tokenid smod TOKENS_PER_BIGTOKEN;
          lrv = base * BIGTOKEN_SIZE_BYTES;
          bitoffset = (FLIT_SIZE_BITS - (TOKENS_PER_BIGTOKEN * 3)) + 2 + (offset * 3)
      in case peek recv_buf (lrv + bitoffset sdiv 8) of
           None \<Rightarrow> None
         | Some b \<Rightarrow> Some (drop_bit (nat (bitoffset smod 8)) (uint b) \<noteq> 0))"

subsection \<open>The wire format, as the specification words it\<close>

text \<open>
  Bit \<open>k\<close> of a buffer is bit \<open>k mod 8\<close> of byte \<open>k div 8\<close>. The valid bit of flit
  \<open>tokenid\<close> is at bit offset
  \<open>(FLIT_SIZE_BITS - TOKENS_PER_BIGTOKEN * 3) + 3 * (tokenid mod TOKENS_PER_BIGTOKEN)\<close>
  of its big-token, the last bit two places higher.
\<close>

definition buffer_bit :: "byte list \<Rightarrow> nat \<Rightarrow> bool" where
  "buffer_bit buf k = bit (buf ! (k div 8)) (k mod 8)"

definition spec_valid_bit :: "byte list \<Rightarrow> nat \<Rightarrow> bool" where
  "spec_valid_bit buf tokenid =
     buffer_bit buf ((tokenid div 7) * 512 + (64 - 7 * 3) + 3 * (tokenid mod 7))"

definition spec_last_bit :: "byte list \<Rightarrow> nat \<Rightarrow> bool" where
  "spec_last_bit buf tokenid =
     buffer_bit buf ((tokenid div 7) * 512 + (64 - 7 * 3) + 3 * (tokenid mod 7) + 2)"

subsection \<open>Destination lookup\<close>

text \<open>
  The constants and the table of \<^verbatim>\<open>switchconfig.h\<close> and \<^verbatim>\<open>baseport.h\<close>, which are
  parameters here, with the two globals of switch.cc that \<^verbatim>\<open>main\<close> sets once from the
  command line.
  Modelled from the spec: \<open>mac2port\<close>, the static table from the low 16 bits of a MAC
  address to a port, as a total map.
\<close>

record switchconfig =
  NUMPORTS :: int
  NUMDOWNLINKS :: int
  NUMUPLINKS :: int
  mac2port :: "u16 \<Rightarrow> u16"
  ETH_MAX_WORDS :: int
  ETH_EXTRA_FLITS :: int
  LINKLATENCY_sw :: int
  switchlat :: int

text \<open>
  The undefined behaviours the switch can run into: a read outside an input buffer, a write
  or read outside a packet's \<^verbatim>\<open>dat\<close>, the use of a pointer to no live object, an index
  outside \<^verbatim>\<open>ports[]\<close>, \<^verbatim>\<open>rand() % 0\<close>, a write outside an output window, and the end of
  a function that has to return a value reached without a \<^verbatim>\<open>return\<close>.
\<close>

datatype fault = InputOverrun | PacketOverrun | BadPointer | BadPort | DivisionByZero
  | OutputOverrun | MissingReturn

text \<open>\<^verbatim>\<open>*((uint64_t*)flit_buf)\<close> on a little-endian host.\<close>

definition load64 :: "byte list \<Rightarrow> u64 option" where
  "load64 buf =
     (case memread buf 0 8 of
        None \<Rightarrow> None
      | Some bs \<Rightarrow> Some (word_rcat (rev bs)))"

text \<open>\<^verbatim>\<open>*((uint64_t*)(flit_buf + off))\<close>.\<close>

definition load64_at :: "byte list \<Rightarrow> int \<Rightarrow> u64 option" where
  "load64_at buf off =
     (case memread buf off 8 of
        None \<Rightarrow> None
      | Some bs \<Rightarrow> Some (word_rcat (rev bs)))"

definition bswap16 :: "u16 \<Rightarrow> u16" where
  "bswap16 x = push_bit 8 x OR drop_bit 8 x"

text \<open>
  The function starts with a \<^verbatim>\<open>printf\<close> whose arguments dereference
  \<^verbatim>\<open>flit_buf + 3 * FLIT_SIZE_BYTES\<close>, \<^verbatim>\<open>+ 2 * FLIT_SIZE_BYTES\<close>, \<^verbatim>\<open>+ 1 * FLIT_SIZE_BYTES\<close>
  and \<^verbatim>\<open>+ 0 * FLIT_SIZE_BYTES\<close> as \<^verbatim>\<open>uint64_t\<close>: it reads the first 32 bytes of the
  buffer, whatever the lookup needs, and a shorter buffer is read out of bounds.
  \<open>r\<close> is what \<^verbatim>\<open>rand()\<close> returns if it is called. \<^verbatim>\<open>rand() % NUMUPLINKS\<close> with
  \<open>NUMUPLINKS = 0\<close> is undefined. The sum \<^verbatim>\<open>randval + NUMDOWNLINKS\<close> is stored in a
  \<^verbatim>\<open>uint16_t\<close>.
\<close>

definition get_port_from_flit :: "switchconfig \<Rightarrow> int \<Rightarrow> byte list \<Rightarrow> fault + u16" where
  "get_port_from_flit cfg r flit_buf =
     (if load64_at flit_buf (3 * FLIT_SIZE_BYTES) = None
         \<or> load64_at flit_buf (2 * FLIT_SIZE_BYTES) = None
         \<or> load64_at flit_buf (1 * FLIT_SIZE_BYTES) = None
         \<or> load64_at flit_buf (0 * FLIT_SIZE_BYTES) = None
      then Inl PacketOverrun
      else
     (case load64 flit_buf of
        None \<Rightarrow> Inl PacketOverrun
      | Some w \<Rightarrow>
          let is_multicast = (ucast (drop_bit 16 w AND 0x1) :: u16);
              flit_low = (ucast (drop_bit 48 w AND 0xFFFF) :: u16);
              sendport = bswap16 flit_low
          in if is_multicast \<noteq> 0 then Inr BROADCAST_ADJUSTED
             else
               let sendport = sendport AND 0xFFFF;
                   sendport = mac2port cfg sendport
               in if uint sendport = NUMDOWNLINKS cfg
                  then (if NUMUPLINKS cfg = 0 then Inl DivisionByZero
                        else let randval = r smod NUMUPLINKS cfg
                             in Inr (word_of_int (randval + NUMDOWNLINKS cfg)))
                  else Inr sendport))"

text \<open>
  Three configurations for the lookup. A switch with two downlinks and no uplink whose table
  sends MAC \<open>0x0201\<close> to port 1 and every other MAC to "any uplink" (the entry
  \<open>NUMDOWNLINKS\<close>); a switch with an uplink whose table holds \<open>0xffff\<close> for MAC \<open>0x0201\<close>;
  and a switch with \<open>0xffff\<close> downlinks and two uplinks, every MAC on "any uplink".
\<close>

definition no_uplink_config :: switchconfig where
  "no_uplink_config =
     \<lparr>NUMPORTS = 2, NUMDOWNLINKS = 2, NUMUPLINKS = 0,
      mac2port = (\<lambda>m. if m = 0x0201 then 1 else 2),
      ETH_MAX_WORDS = 190, ETH_EXTRA_FLITS = 10, LINKLATENCY_sw = 7, switchlat = 10\<rparr>"

definition sentinel_entry_config :: switchconfig where
  "sentinel_entry_config =
     \<lparr>NUMPORTS = 3, NUMDOWNLINKS = 2, NUMUPLINKS = 1,
      mac2port = (\<lambda>m. if m = 0x0201 then 0xffff else 2),
      ETH_MAX_WORDS = 190, ETH_EXTRA_FLITS = 10, LINKLATENCY_sw = 7, switchlat = 10\<rparr>"

definition many_downlinks_config :: switchconfig where
  "many_downlinks_config =
     \<lparr>NUMPORTS = 0x10001, NUMDOWNLINKS = 0xffff, NUMUPLINKS = 2,
      mac2port = (\<lambda>m. 0xffff),
      ETH_MAX_WORDS = 190, ETH_EXTRA_FLITS = 10, LINKLATENCY_sw = 7, switchlat = 10\<rparr>"

subsection \<open>Writing one token\<close>

text \<open>
  What the stores of the three calls that put a flit with its valid and last bits into a
  window leave there:
  \<^verbatim>\<open>write_flit(buf, tokenid, b); write_valid_flit(buf, tokenid); write_last_flit(buf, tokenid, l)\<close>.
\<close>

definition write_token :: "byte list \<Rightarrow> int \<Rightarrow> byte list \<Rightarrow> bool \<Rightarrow> byte list option" where
  "write_token buf tokenid b l =
     (case write_flit buf tokenid b of
        None \<Rightarrow> None
      | Some buf1 \<Rightarrow>
          (case write_valid_flit buf1 tokenid of
             None \<Rightarrow> None
           | Some buf2 \<Rightarrow> write_last_flit_store buf2 tokenid l))"

definition meta_bits_clear :: "byte list \<Rightarrow> nat \<Rightarrow> bool" where
  "meta_bits_clear buf n =
     list_all (\<lambda>t. \<not> spec_valid_bit buf t \<and> \<not> spec_last_bit buf t) [0..<n]"

text \<open>A big-token of zeros except for byte 5, which holds bits 40 to 47.\<close>

definition bigtoken_byte5 :: "byte \<Rightarrow> byte list" where
  "bigtoken_byte5 x = replicate 5 0 @ [x] @ replicate 58 0"

subsection \<open>\<^verbatim>\<open>write_last_flit\<close> as a function\<close>



section \<open>Switch core (switch.cc)\<close>

subsection \<open>State\<close>

text \<open>
  \<^verbatim>\<open>switchpacket\<close> objects and their \<^verbatim>\<open>dat\<close> buffers live on the heap, and the queues
  hold pointers to them. The heap is two lists of cells; an address is an index, a freed
  cell is \<open>None\<close>, and an allocation appends a cell, so that it never returns an address
  in use.
\<close>

record switchpacket =
  timestamp :: u64
  dat :: nat
  amtwritten :: int
  amtread :: int
  sender :: int

record baseport =
  current_input_buf :: "byte list"
  input_in_progress :: "nat option"
  inputqueue :: "nat list"
  outputqueue :: "nat list"

text \<open>The array \<^verbatim>\<open>ports[]\<close>, the heap and the clock of switch.cc.\<close>

record switch =
  ports :: "baseport list"
  pkts :: "switchpacket option list"
  dats :: "byte list option list"
  this_iter_cycles_start :: u64

definition NUM_TOKENS :: "switchconfig \<Rightarrow> int" where
  "NUM_TOKENS cfg = LINKLATENCY_sw cfg"

definition SWITCHLATENCY :: "switchconfig \<Rightarrow> int" where
  "SWITCHLATENCY cfg = switchlat cfg"

definition ADDUPLINK :: "switchconfig \<Rightarrow> int" where
  "ADDUPLINK cfg = (if NUMUPLINKS cfg > 0 then 1 else 0)"

definition pkt_at :: "switch \<Rightarrow> nat \<Rightarrow> switchpacket option" where
  "pkt_at s a = (if a < length (pkts s) then pkts s ! a else None)"

definition dat_at :: "switch \<Rightarrow> nat \<Rightarrow> byte list option" where
  "dat_at s a = (if a < length (dats s) then dats s ! a else None)"

definition new_pkt :: "switchpacket \<Rightarrow> switch \<Rightarrow> nat \<times> switch" where
  "new_pkt p s = (length (pkts s), s\<lparr>pkts := pkts s @ [Some p]\<rparr>)"

definition new_dat :: "byte list \<Rightarrow> switch \<Rightarrow> nat \<times> switch" where
  "new_dat d s = (length (dats s), s\<lparr>dats := dats s @ [Some d]\<rparr>)"

definition port_ref :: "switch \<Rightarrow> int \<Rightarrow> baseport option" where
  "port_ref s i = (if 0 \<le> i \<and> i < int (length (ports s)) then Some (ports s ! nat i) else None)"

definition set_port :: "int \<Rightarrow> baseport \<Rightarrow> switch \<Rightarrow> switch" where
  "set_port i p s = s\<lparr>ports := (ports s)[nat i := p]\<rparr>"

subsection \<open>Phase 1: from the input windows to packets\<close>

text \<open>
  The body of \<^verbatim>\<open>for (int tokenno = 0; tokenno < NUM_TOKENS; tokenno++)\<close> for one port.
  The timestamp is computed in \<^verbatim>\<open>uint64_t\<close>.
\<close>

definition reassemble_flit :: "switchconfig \<Rightarrow> int \<Rightarrow> int \<Rightarrow> switch \<Rightarrow> fault + switch" where
  "reassemble_flit cfg port tokenno s =
     (case port_ref s port of
        None \<Rightarrow> Inl BadPort
      | Some current_port \<Rightarrow>
     (let input_port_buf = current_input_buf current_port
      in case is_valid_flit input_port_buf tokenno of
           None \<Rightarrow> Inl InputOverrun
         | Some False \<Rightarrow> Inr s
         | Some True \<Rightarrow>
        (case memread input_port_buf (get_flit tokenno) FLIT_SIZE_BYTES of
           None \<Rightarrow> Inl InputOverrun
         | Some flit \<Rightarrow>
        (let (sp, s1) =
               (case input_in_progress current_port of
                  None \<Rightarrow>
                    let (d, sa) = new_dat (replicate (nat (FLIT_SIZE_BYTES
                                     * (ETH_MAX_WORDS cfg + ETH_EXTRA_FLITS cfg))) 0) s;
                        (a, sb) = new_pkt
                          \<lparr>timestamp = this_iter_cycles_start s + word_of_int tokenno
                                          + word_of_int (SWITCHLATENCY cfg),
                           dat = d, amtwritten = 0, amtread = 0, sender = port\<rparr> sa
                    in (a, sb)
                | Some a \<Rightarrow> (a, s))
         in case pkt_at s1 sp of
              None \<Rightarrow> Inl BadPointer
            | Some pk \<Rightarrow>
           (case dat_at s1 (dat pk) of
              None \<Rightarrow> Inl BadPointer
            | Some bytes \<Rightarrow>
           (case memcpy bytes (amtwritten pk * FLIT_SIZE_BYTES) flit FLIT_SIZE_BYTES of
              None \<Rightarrow> Inl PacketOverrun
            | Some bytes' \<Rightarrow>
           (let s2 = s1\<lparr>dats := (dats s1)[dat pk := Some bytes'],
                         pkts := (pkts s1)[sp := Some (pk\<lparr>amtwritten := amtwritten pk + 1\<rparr>)]\<rparr>
            in case is_last_flit input_port_buf tokenno of
                 None \<Rightarrow> Inl InputOverrun
               | Some True \<Rightarrow>
                   Inr (set_port port
                          (current_port\<lparr>inputqueue := inputqueue current_port @ [sp],
                                        input_in_progress := None\<rparr>) s2)
               | Some False \<Rightarrow>
                   Inr (set_port port (current_port\<lparr>input_in_progress := Some sp\<rparr>) s2))))))))"

function reassemble_tokens :: "switchconfig \<Rightarrow> int \<Rightarrow> int \<Rightarrow> switch \<Rightarrow> fault + switch" where
  "reassemble_tokens cfg port tokenno s =
     (if tokenno < NUM_TOKENS cfg
      then (case reassemble_flit cfg port tokenno s of
              Inl e \<Rightarrow> Inl e
            | Inr s' \<Rightarrow> reassemble_tokens cfg port (tokenno + 1) s')
      else Inr s)"
  by pat_completeness auto
termination
  by (relation "measure (\<lambda>(cfg, port, tokenno, s). nat (NUM_TOKENS cfg - tokenno))") auto

declare reassemble_tokens.simps [simp del]

text \<open>
  \<^verbatim>\<open>for (int port = 0; port < NUMPORTS; port++)\<close> under \<^verbatim>\<open>omp parallel for\<close>: the
  iterations touch disjoint ports and only share the allocator; they are taken in order.
\<close>

function reassemble_ports :: "switchconfig \<Rightarrow> int \<Rightarrow> switch \<Rightarrow> fault + switch" where
  "reassemble_ports cfg port s =
     (if port < NUMPORTS cfg
      then (case reassemble_tokens cfg port 0 s of
              Inl e \<Rightarrow> Inl e
            | Inr s' \<Rightarrow> reassemble_ports cfg (port + 1) s')
      else Inr s)"
  by pat_completeness auto
termination
  by (relation "measure (\<lambda>(cfg, port, s). nat (NUMPORTS cfg - port))") auto

declare reassemble_ports.simps [simp del]

subsection \<open>Phase 2: from the input queues to the priority queue\<close>

text \<open>
  \<^verbatim>\<open>struct tspacket\<close>. The priority queue is the list of its elements in the order of
  their insertion; which element \<^verbatim>\<open>top()\<close> returns is the library's choice.
\<close>

record tspacket =
  ts_timestamp :: u64
  switchpack :: nat

text \<open>
  \<^verbatim>\<open>bool operator<(const tspacket &o) const { return timestamp > o.timestamp; }\<close>:
  \<open>tspacket_less a b\<close> is \<^verbatim>\<open>a < b\<close>.
\<close>

definition tspacket_less :: "tspacket \<Rightarrow> tspacket \<Rightarrow> bool" where
  "tspacket_less a b \<longleftrightarrow> ts_timestamp a > ts_timestamp b"

text \<open>\<^verbatim>\<open>while (!(ports[i]->inputqueue.empty())) { front; pop; pqueue.push(...) }\<close> on the queue's content.\<close>

fun drain_inputqueue :: "switch \<Rightarrow> nat list \<Rightarrow> tspacket list \<Rightarrow> fault + tspacket list" where
  "drain_inputqueue s [] pqueue = Inr pqueue"
| "drain_inputqueue s (sp # q) pqueue =
     (case pkt_at s sp of
        None \<Rightarrow> Inl BadPointer
      | Some pk \<Rightarrow>
          drain_inputqueue s q (pqueue @ [\<lparr>ts_timestamp = timestamp pk, switchpack = sp\<rparr>]))"

function fill_pqueue :: "switchconfig \<Rightarrow> int \<Rightarrow> tspacket list \<Rightarrow> switch
    \<Rightarrow> fault + (tspacket list \<times> switch)" where
  "fill_pqueue cfg i pqueue s =
     (if i < NUMPORTS cfg
      then (case port_ref s i of
              None \<Rightarrow> Inl BadPort
            | Some p \<Rightarrow>
                (case drain_inputqueue s (inputqueue p) pqueue of
                   Inl e \<Rightarrow> Inl e
                 | Inr pqueue' \<Rightarrow>
                     fill_pqueue cfg (i + 1) pqueue' (set_port i (p\<lparr>inputqueue := []\<rparr>) s)))
      else Inr (pqueue, s))"
  by pat_completeness auto
termination
  by (relation "measure (\<lambda>(cfg, i, pqueue, s). nat (NUMPORTS cfg - i))") auto

declare fill_pqueue.simps [simp del]

subsection \<open>Phase 3: routing\<close>

text \<open>\<^verbatim>\<open>ports[i]->outputqueue.push(p)\<close>.\<close>

definition push_output :: "int \<Rightarrow> nat \<Rightarrow> switch \<Rightarrow> fault + switch" where
  "push_output i a s =
     (case port_ref s i of
        None \<Rightarrow> Inl BadPort
      | Some p \<Rightarrow> Inr (set_port i (p\<lparr>outputqueue := outputqueue p @ [a]\<rparr>) s))"

text \<open>
  The body of the broadcast loop for one \<open>i\<close>: \<^verbatim>\<open>malloc\<close> and \<^verbatim>\<open>memcpy\<close> of the packet
  and of the whole \<^verbatim>\<open>dat\<close> buffer, then the push.
\<close>

definition broadcast_to :: "switchconfig \<Rightarrow> nat \<Rightarrow> int \<Rightarrow> switch \<Rightarrow> fault + switch" where
  "broadcast_to cfg tsp i s =
     (case pkt_at s tsp of
        None \<Rightarrow> Inl BadPointer
      | Some pk \<Rightarrow>
          if i \<noteq> sender pk
          then (let (tsp2, s1) = new_pkt pk s
                in case dat_at s1 (dat pk) of
                     None \<Rightarrow> Inl BadPointer
                   | Some bytes \<Rightarrow>
                  (case memread bytes 0
                          (FLIT_SIZE_BYTES * (ETH_MAX_WORDS cfg + ETH_EXTRA_FLITS cfg)) of
                     None \<Rightarrow> Inl PacketOverrun
                   | Some copy \<Rightarrow>
                       let (d2, s2) = new_dat copy s1;
                           s3 = s2\<lparr>pkts := (pkts s2)[tsp2 := Some (pk\<lparr>dat := d2\<rparr>)]\<rparr>
                       in push_output i tsp2 s3))
          else Inr s)"

function broadcast_loop :: "switchconfig \<Rightarrow> nat \<Rightarrow> int \<Rightarrow> switch \<Rightarrow> fault + switch" where
  "broadcast_loop cfg tsp i s =
     (if i < NUMDOWNLINKS cfg + ADDUPLINK cfg
      then (case broadcast_to cfg tsp i s of
              Inl e \<Rightarrow> Inl e
            | Inr s' \<Rightarrow> broadcast_loop cfg tsp (i + 1) s')
      else Inr s)"
  by pat_completeness auto
termination
  by (relation "measure (\<lambda>(cfg, tsp, i, s). nat (NUMDOWNLINKS cfg + ADDUPLINK cfg - i))") auto

declare broadcast_loop.simps [simp del]

text \<open>\<^verbatim>\<open>free(tsp->dat); free(tsp);\<close>\<close>

definition free_packet :: "nat \<Rightarrow> switch \<Rightarrow> fault + switch" where
  "free_packet tsp s =
     (case pkt_at s tsp of
        None \<Rightarrow> Inl BadPointer
      | Some pk \<Rightarrow>
          (case dat_at s (dat pk) of
             None \<Rightarrow> Inl BadPointer
           | Some _ \<Rightarrow>
               Inr (s\<lparr>dats := (dats s)[dat pk := None], pkts := (pkts s)[tsp := None]\<rparr>)))"

text \<open>
  The body of \<^verbatim>\<open>while (!pqueue.empty())\<close> after \<^verbatim>\<open>top()\<close> and \<^verbatim>\<open>pop()\<close>, for the
  popped pointer \<open>tsp\<close>; \<open>r\<close> is what \<^verbatim>\<open>rand()\<close> returns if it is called.
\<close>

definition route_packet :: "switchconfig \<Rightarrow> int \<Rightarrow> nat \<Rightarrow> switch \<Rightarrow> fault + switch" where
  "route_packet cfg r tsp s =
     (case pkt_at s tsp of
        None \<Rightarrow> Inl BadPointer
      | Some pk \<Rightarrow>
          (case dat_at s (dat pk) of
             None \<Rightarrow> Inl BadPointer
           | Some bytes \<Rightarrow>
               (case get_port_from_flit cfg r bytes of
                  Inl e \<Rightarrow> Inl e
                | Inr send_to_port \<Rightarrow>
                    if send_to_port = BROADCAST_ADJUSTED
                    then (case broadcast_loop cfg tsp 0 s of
                            Inl e \<Rightarrow> Inl e
                          | Inr s' \<Rightarrow> free_packet tsp s')
                    else push_output (uint send_to_port) tsp s)))"

text \<open>
  The environment of the routing loop: \<open>pq_top q\<close> is the index in \<open>q\<close> of the element
  \<^verbatim>\<open>std::priority_queue::top()\<close> returns (an index outside \<open>q\<close> is a library that hands
  out no element), \<open>rand_value k\<close> what \<^verbatim>\<open>rand()\<close> returns in the \<open>k\<close>-th iteration.
  The queues one run of the loop passes through have different lengths, so whatever the
  library's heap hands out during a run is what some function \<open>pq_top\<close> hands out.
\<close>

record routing_env =
  pq_top :: "tspacket list \<Rightarrow> nat"
  rand_value :: "nat \<Rightarrow> int"

text \<open>
  \<^verbatim>\<open>std::priority_queue<tspacket>\<close> is the standard library's and orders its elements
  with \<^verbatim>\<open>std::less<tspacket>\<close>, that is with \<^verbatim>\<open>tspacket::operator<\<close>. The standard
  fixes \<^verbatim>\<open>top()\<close> as an element of the queue that is less than no element of the queue,
  and leaves open which one of several. This is that contract, on \<open>tspacket_less\<close>.
\<close>

definition pq_contract :: "(tspacket list \<Rightarrow> nat) \<Rightarrow> bool" where
  "pq_contract tp \<longleftrightarrow>
     (\<forall>q. q \<noteq> [] \<longrightarrow> tp q < length q
            \<and> (\<forall>e \<in> set q. \<not> tspacket_less (q ! tp q) e))"

function route_packets :: "switchconfig \<Rightarrow> routing_env \<Rightarrow> nat \<Rightarrow> tspacket list \<Rightarrow> switch
    \<Rightarrow> fault + switch" where
  "route_packets cfg env k pqueue s =
     (if pqueue \<noteq> []
      then (if pq_top env pqueue < length pqueue
            then (let i = pq_top env pqueue;
                      tsp = switchpack (pqueue ! i);
                      pqueue' = take i pqueue @ drop (Suc i) pqueue
                  in case route_packet cfg (rand_value env k) tsp s of
                       Inl e \<Rightarrow> Inl e
                     | Inr s' \<Rightarrow> route_packets cfg env (Suc k) pqueue' s')
            else Inl BadPointer)
      else Inr s)"
  by pat_completeness auto
termination
  by (relation "measure (\<lambda>(cfg, env, k, pqueue, s). length pqueue)") auto

declare route_packets.simps [simp del]

text \<open>
  \<^verbatim>\<open>do_fast_switching()\<close> between \<^verbatim>\<open>setup_send_buf()\<close> and
  \<^verbatim>\<open>write_flits_to_output()\<close>, which belong to the ports.
\<close>

definition do_fast_switching :: "switchconfig \<Rightarrow> routing_env \<Rightarrow> switch \<Rightarrow> fault + switch" where
  "do_fast_switching cfg env s =
     (case reassemble_ports cfg 0 s of
        Inl e \<Rightarrow> Inl e
      | Inr s1 \<Rightarrow>
          (case fill_pqueue cfg 0 [] s1 of
             Inl e \<Rightarrow> Inl e
           | Inr (pqueue, s2) \<Rightarrow> route_packets cfg env 0 pqueue s2))"

text \<open>The order in which the routing loop pops a priority queue.\<close>

function pop_order :: "(tspacket list \<Rightarrow> nat) \<Rightarrow> tspacket list \<Rightarrow> tspacket list" where
  "pop_order tp pqueue =
     (if pqueue \<noteq> [] \<and> tp pqueue < length pqueue
      then pqueue ! tp pqueue
             # pop_order tp (take (tp pqueue) pqueue @ drop (Suc (tp pqueue)) pqueue)
      else [])"
  by pat_completeness auto
termination
  by (relation "measure (\<lambda>(tp, pqueue). length pqueue)") auto

declare pop_order.simps [simp del]

text \<open>Routing a list of popped elements one after the other.\<close>

fun route_in_order :: "switchconfig \<Rightarrow> (nat \<Rightarrow> int) \<Rightarrow> nat \<Rightarrow> tspacket list \<Rightarrow> switch
    \<Rightarrow> fault + switch" where
  "route_in_order cfg rnd k [] s = Inr s"
| "route_in_order cfg rnd k (e # es) s =
     (case route_packet cfg (rnd k) (switchpack e) s of
        Inl e \<Rightarrow> Inl e
      | Inr s' \<Rightarrow> route_in_order cfg rnd (Suc k) es s')"

text \<open>
  A priority queue that hands out the first of its elements that \<^verbatim>\<open>operator<\<close> puts
  below no element of the queue.
\<close>

definition first_greatest :: "tspacket list \<Rightarrow> nat" where
  "first_greatest q = length (takeWhile (\<lambda>x. \<exists>y \<in> set q. tspacket_less x y) q)"

subsection \<open>The pushes of the routing loop, in the order in which it makes them\<close>

text \<open>
  The timestamp of the packet a pointer refers to; the pointers a port's output queue has in
  the second state beyond those it has in the first; and these for all ports, each with its
  port and with the timestamp its packet has in the second state.
\<close>

definition stamp :: "switch \<Rightarrow> nat \<Rightarrow> u64 option" where
  "stamp s a = (case pkt_at s a of None \<Rightarrow> None | Some pk \<Rightarrow> Some (timestamp pk))"

definition appended :: "switch \<Rightarrow> switch \<Rightarrow> nat \<Rightarrow> nat list" where
  "appended s s' p =
     (if p < length (ports s)
      then drop (length (outputqueue (ports s ! p))) (outputqueue (ports s' ! p))
      else outputqueue (ports s' ! p))"

record push_event =
  ev_port :: nat
  ev_packet :: nat
  ev_timestamp :: "u64 option"

definition pushes :: "switch \<Rightarrow> switch \<Rightarrow> push_event list" where
  "pushes s s' =
     concat (map (\<lambda>p. map (\<lambda>a. \<lparr>ev_port = p, ev_packet = a, ev_timestamp = stamp s' a\<rparr>)
                       (appended s s' p))
                 [0..<length (ports s')])"

text \<open>
  The pushes of the routing loop on a list of popped elements: those of the first element,
  read off the states before and after \<open>route_packet\<close>, then those of the others.
\<close>

fun push_trace :: "switchconfig \<Rightarrow> (nat \<Rightarrow> int) \<Rightarrow> nat \<Rightarrow> tspacket list \<Rightarrow> switch
    \<Rightarrow> push_event list" where
  "push_trace cfg rnd k [] s = []"
| "push_trace cfg rnd k (e # es) s =
     (case route_packet cfg (rnd k) (switchpack e) s of
        Inl x \<Rightarrow> []
      | Inr s' \<Rightarrow> pushes s s' @ push_trace cfg rnd (Suc k) es s')"

text \<open>The pushes of the routing loop on a priority queue.\<close>

definition routing_pushes :: "switchconfig \<Rightarrow> routing_env \<Rightarrow> tspacket list \<Rightarrow> switch
    \<Rightarrow> push_event list" where
  "routing_pushes cfg env pqueue s =
     push_trace cfg (rand_value env) 0 (pop_order (pq_top env) pqueue) s"

text \<open>
  The ports the loop body pushes a packet to, for the result of the lookup and the packet's
  sender: every port below \<open>NUMDOWNLINKS + ADDUPLINK\<close> but the sender for a broadcast, and
  else the port looked up.
\<close>

definition destinations :: "switchconfig \<Rightarrow> u16 \<Rightarrow> int \<Rightarrow> nat list" where
  "destinations cfg send_to_port sndr =
     (if send_to_port = BROADCAST_ADJUSTED
      then filter (\<lambda>i. int i \<noteq> sndr) [0..<nat (NUMDOWNLINKS cfg + ADDUPLINK cfg)]
      else [unat send_to_port])"

text \<open>
  Two relations between a state and a later one, for the proofs. \<open>kept\<close>: the heap has
  only gained cells and lost contents, so a cell of the first state is unchanged or freed.
  \<open>fanned t\<close>: the ports are the same but for pointers appended to output queues, all to
  packet cells appended to the heap, which hold packets with timestamp \<open>t\<close>.
\<close>

definition kept :: "switch \<Rightarrow> switch \<Rightarrow> bool" where
  "kept s s' \<longleftrightarrow>
     length (pkts s) \<le> length (pkts s') \<and> length (dats s) \<le> length (dats s')
     \<and> (\<forall>a < length (pkts s). pkts s' ! a = pkts s ! a \<or> pkts s' ! a = None)
     \<and> (\<forall>a < length (dats s). dats s' ! a = dats s ! a \<or> dats s' ! a = None)"

definition fanned :: "u64 \<Rightarrow> switch \<Rightarrow> switch \<Rightarrow> bool" where
  "fanned t s s' \<longleftrightarrow>
     length (ports s') = length (ports s)
     \<and> (\<exists>xs. pkts s' = pkts s @ xs
            \<and> (\<forall>x \<in> set xs. \<exists>pk. x = Some pk \<and> timestamp pk = t))
     \<and> (\<exists>ds. dats s' = dats s @ ds)
     \<and> (\<forall>p < length (ports s). \<exists>ns.
            outputqueue (ports s' ! p) = outputqueue (ports s ! p) @ ns
            \<and> (\<forall>a \<in> set ns. length (pkts s) \<le> a \<and> a < length (pkts s')))"

subsection \<open>A small switch\<close>

text \<open>
  Two downlinks, no uplink, every MAC on port 1, a window of one big-token and a switching
  latency of 10 cycles; and a state in which each port has one complete one-flit packet in
  its input queue, the one of port 0 from token 5 and the one of port 1 from token 1.
\<close>

definition two_port_config :: switchconfig where
  "two_port_config =
     \<lparr>NUMPORTS = 2, NUMDOWNLINKS = 2, NUMUPLINKS = 0, mac2port = (\<lambda>m. 1),
      ETH_MAX_WORDS = 190, ETH_EXTRA_FLITS = 10, LINKLATENCY_sw = 7, switchlat = 10\<rparr>"

definition idle_port :: baseport where
  "idle_port =
     \<lparr>current_input_buf = replicate 64 0, input_in_progress = None,
      inputqueue = [], outputqueue = []\<rparr>"

definition two_packets_queued :: switch where
  "two_packets_queued =
     \<lparr>ports = [idle_port\<lparr>inputqueue := [0]\<rparr>, idle_port\<lparr>inputqueue := [1]\<rparr>],
      pkts = [Some \<lparr>timestamp = 15, dat = 0, amtwritten = 1, amtread = 0, sender = 0\<rparr>,
              Some \<lparr>timestamp = 11, dat = 1, amtwritten = 1, amtread = 0, sender = 1\<rparr>],
      dats = [Some (replicate 1600 0), Some (replicate 1600 0)],
      this_iter_cycles_start = 0\<rparr>"

text \<open>
  The number of ports from \<open>i\<close> up to but without \<open>j\<close> that are not the sender: the
  broadcast copies made before the loop reaches port \<open>j\<close>.
\<close>

definition copies_before :: "int \<Rightarrow> nat \<Rightarrow> nat \<Rightarrow> nat" where
  "copies_before sndr i j = length (filter (\<lambda>k. int k \<noteq> sndr) [i..<j])"

text \<open>
  Two downlinks and two uplinks, and a state with one complete packet from port 0 whose
  first flit has the multicast bit (bit 16) set.
\<close>

definition four_port_config :: switchconfig where
  "four_port_config =
     \<lparr>NUMPORTS = 4, NUMDOWNLINKS = 2, NUMUPLINKS = 2, mac2port = (\<lambda>m. 1),
      ETH_MAX_WORDS = 190, ETH_EXTRA_FLITS = 10, LINKLATENCY_sw = 7, switchlat = 10\<rparr>"

definition multicast_dat :: "byte list" where
  "multicast_dat = [0, 0, 1, 0, 0, 0, 0, 0] @ replicate 1592 0"

definition one_broadcast_packet :: switch where
  "one_broadcast_packet =
     \<lparr>ports = [idle_port, idle_port, idle_port, idle_port],
      pkts = [Some \<lparr>timestamp = 15, dat = 0, amtwritten = 1, amtread = 0, sender = 0\<rparr>],
      dats = [Some multicast_dat],
      this_iter_cycles_start = 0\<rparr>"

subsection \<open>Packets that fit their buffer\<close>

text \<open>
  The number of flits in the packet in progress on a port, and the condition under which
  phase 1 starts on a port: the port exists and, if a packet is in progress, it is a live
  packet with a live \<^verbatim>\<open>dat\<close> buffer of the allocated size.
\<close>

definition amt_in_progress :: "switch \<Rightarrow> int \<Rightarrow> int" where
  "amt_in_progress s port =
     (case port_ref s port of
        None \<Rightarrow> 0
      | Some p \<Rightarrow>
          (case input_in_progress p of
             None \<Rightarrow> 0
           | Some a \<Rightarrow> (case pkt_at s a of None \<Rightarrow> 0 | Some pk \<Rightarrow> amtwritten pk)))"

definition port_ready :: "switchconfig \<Rightarrow> switch \<Rightarrow> int \<Rightarrow> bool" where
  "port_ready cfg s port =
     (case port_ref s port of
        None \<Rightarrow> False
      | Some p \<Rightarrow>
          (case input_in_progress p of
             None \<Rightarrow> True
           | Some a \<Rightarrow>
               (case pkt_at s a of
                  None \<Rightarrow> False
                | Some pk \<Rightarrow>
                    (case dat_at s (dat pk) of
                       None \<Rightarrow> False
                     | Some bytes \<Rightarrow>
                         0 \<le> amtwritten pk
                         \<and> int (length bytes)
                             = FLIT_SIZE_BYTES * (ETH_MAX_WORDS cfg + ETH_EXTRA_FLITS cfg)))))"

text \<open>The window holds the big-tokens of all \<open>NUM_TOKENS\<close> tokens.\<close>

definition window_ok :: "switchconfig \<Rightarrow> byte list \<Rightarrow> bool" where
  "window_ok cfg buf \<longleftrightarrow>
     NUM_TOKENS cfg \<le> TOKENS_PER_BIGTOKEN * (int (length buf) div BIGTOKEN_SIZE_BYTES)"

text \<open>
  No packet of the window, as the code's own valid and last tests delimit the packets,
  outgrows \<open>ETH_MAX_WORDS + ETH_EXTRA_FLITS\<close> flits: \<open>n\<close> is the number of flits in the
  packet in progress before token \<open>tokenno\<close>.
\<close>

function fits :: "switchconfig \<Rightarrow> byte list \<Rightarrow> int \<Rightarrow> int \<Rightarrow> bool" where
  "fits cfg buf tokenno n =
     (if tokenno < NUM_TOKENS cfg
      then (if is_valid_flit buf tokenno = Some True
            then n < ETH_MAX_WORDS cfg + ETH_EXTRA_FLITS cfg
                 \<and> fits cfg buf (tokenno + 1)
                      (if is_last_flit buf tokenno = Some True then 0 else n + 1)
            else fits cfg buf (tokenno + 1) n)
      else True)"
  by pat_completeness auto
termination
  by (relation "measure (\<lambda>(cfg, buf, tokenno, n). nat (NUM_TOKENS cfg - tokenno))") auto

declare fits.simps [simp del]

text \<open>
  A window of 201 big-tokens in each of which only flit 0 is valid (bit 43), and not last;
  and a window written by the codec: flits 0 and 1 valid, the last bit on flit 1.
\<close>

definition long_packet_config :: switchconfig where
  "long_packet_config = two_port_config\<lparr>LINKLATENCY_sw := 1407\<rparr>"

definition long_packet_window :: "byte list" where
  "long_packet_window = concat (replicate 201 (bigtoken_byte5 0x08))"

definition long_packet_arrives :: switch where
  "long_packet_arrives =
     \<lparr>ports = [idle_port\<lparr>current_input_buf := long_packet_window\<rparr>, idle_port],
      pkts = [], dats = [], this_iter_cycles_start = 0\<rparr>"

definition two_flit_window :: "byte list" where
  "two_flit_window =
     replicate 5 0 @ [0x48, 0x01, 0] @ [1, 2, 3, 4, 5, 6, 7, 8]
       @ [9, 10, 11, 12, 13, 14, 15, 16] @ replicate 40 0"

definition two_flit_packet_arrives :: switch where
  "two_flit_packet_arrives =
     \<lparr>ports = [idle_port\<lparr>current_input_buf := two_flit_window\<rparr>, idle_port],
      pkts = [], dats = [], this_iter_cycles_start = 0\<rparr>"

section \<open>Properties of the rate limiter\<close>

lemma gcd_loop_gcd:
  "0 \<le> a \<Longrightarrow> 0 \<le> b \<Longrightarrow> gcd_loop a b = gcd a b"
proof (induction a b rule: gcd_loop.induct)
  case (1 a b)
  show ?case
  proof (cases "0 < b")
    case True
    have m: "a smod b = a mod b"
      using True "1.prems" by (simp add: smod_int_alt_def sgn_if)
    have "gcd_loop a b = gcd_loop b (a smod b)"
      using True by (simp add: gcd_loop.simps [of a b])
    also have "\<dots> = gcd b (a smod b)"
      using True "1.prems" m by (intro "1.IH") simp_all
    also have "\<dots> = gcd a b"
      using gcd_red_int [of a b] by (simp add: m)
    finally show ?thesis .
  next
    case False
    then have "b = 0" using "1.prems" by simp
    then show ?thesis using "1.prems" by (simp add: gcd_loop.simps [of a 0])
  qed
qed

lemma simplify_frac_pos:
  assumes "0 < n" "0 < d"
  shows "simplify_frac n d = Some (n div gcd n d, d div gcd n d)"
proof -
  have g: "gcd_loop n d = gcd n d"
    using assms by (simp add: gcd_loop_gcd)
  have p: "0 < gcd n d"
    using assms by (simp add: gcd_pos_int)
  have "n sdiv gcd n d = n div gcd n d" "d sdiv gcd n d = d div gcd n d"
    using assms p by (simp_all add: signed_divide_int_def sgn_if)
  then show ?thesis
    using p by (simp add: simplify_frac_def g Let_def)
qed

lemma ctor_finish_rlimit:
  assumes ok: "ctor_finish lc v = Inr nic" and pos: "0 < netbw v"
  shows "rlimit_inc nic = netbw v div gcd (netbw v) MAX_BANDWIDTH"
    and "rlimit_period nic = MAX_BANDWIDTH div gcd (netbw v) MAX_BANDWIDTH"
    and "rlimit_size nic = netburst v"
proof -
  have sf: "simplify_frac (netbw v) MAX_BANDWIDTH =
      Some (netbw v div gcd (netbw v) MAX_BANDWIDTH, MAX_BANDWIDTH div gcd (netbw v) MAX_BANDWIDTH)"
    using pos by (intro simplify_frac_pos) (simp_all add: MAX_BANDWIDTH_def)
  show "rlimit_inc nic = netbw v div gcd (netbw v) MAX_BANDWIDTH"
    and "rlimit_period nic = MAX_BANDWIDTH div gcd (netbw v) MAX_BANDWIDTH"
    and "rlimit_size nic = netburst v"
    using ok unfolding ctor_finish_def sf
    by (auto simp: Let_def split: if_splits option.splits)
qed

text \<open>
  Claim C8. When the constructor returns an endpoint for a bandwidth with
  \<open>0 < netbw \<le> MAX_BANDWIDTH = 800\<close> and a burst below 256, \<open>rlimit_inc\<close> and
  \<open>rlimit_period\<close> are coprime, \<open>rlimit_inc * 800 = rlimit_period * netbw\<close>, and the third
  register write of \<^verbatim>\<open>init()\<close> stores
  \<open>(rlimit_inc << 20) | ((rlimit_period - 1) << 10) | netburst\<close> in \<open>rlimit_settings\<close>.
\<close>

theorem rate_limiter_register:
  assumes ok: "ctor_finish lc v = Inr nic"
    and bw: "0 < netbw v" "netbw v \<le> MAX_BANDWIDTH"
    and burst: "netburst v < 256"
  shows "coprime (rlimit_inc nic) (rlimit_period nic)
       \<and> rlimit_inc nic * 800 = rlimit_period nic * netbw v
       \<and> (\<exists>rest. trace (world_of (init oc ic pushed nic w)) =
            trace w @
            [MmioWrite macaddr_upper (ucast (drop_bit 32 (mac_lendian nic) AND 0xFFFF)),
             MmioWrite macaddr_lower (ucast (mac_lendian nic AND 0xFFFFFFFF)),
             MmioWrite rlimit_settings
               (word_of_int (push_bit 20 (rlimit_inc nic)
                  OR push_bit 10 (rlimit_period nic - 1) OR netburst v))] @ rest)"
proof -
  let ?g = "gcd (netbw v) MAX_BANDWIDTH"
  note r = ctor_finish_rlimit [OF ok bw(1)]
  have g: "?g dvd netbw v" "?g dvd MAX_BANDWIDTH" by simp_all
  have "coprime (netbw v div ?g) (MAX_BANDWIDTH div ?g)"
    using bw(1) by (intro div_gcd_coprime) simp
  then have c: "coprime (rlimit_inc nic) (rlimit_period nic)"
    by (simp add: r)
  have "(netbw v div ?g) * MAX_BANDWIDTH = (MAX_BANDWIDTH div ?g) * netbw v"
    using g by (metis div_mult_swap dvd_div_mult mult.commute)
  then have e: "rlimit_inc nic * 800 = rlimit_period nic * netbw v"
    by (simp add: r MAX_BANDWIDTH_def)
  have v: "rlimit_settings_value nic =
      push_bit 20 (rlimit_inc nic) OR push_bit 10 (rlimit_period nic - 1) OR netburst v"
    by (simp add: rlimit_settings_value_def MAX_BANDWIDTH_BITS_def r)
  have t: "\<exists>rest. trace (world_of (init oc ic pushed nic w)) =
            trace w @
            [MmioWrite macaddr_upper (ucast (drop_bit 32 (mac_lendian nic) AND 0xFFFF)),
             MmioWrite macaddr_lower (ucast (mac_lendian nic AND 0xFFFFFFFF)),
             MmioWrite rlimit_settings
               (word_of_int (push_bit 20 (rlimit_inc nic)
                  OR push_bit 10 (rlimit_period nic - 1) OR netburst v))] @ rest"
    unfolding init_def Let_def v [symmetric]
    by (simp add: world_of_def emit_def)
  from c e t show ?thesis by blast
qed


lemma gcd_loop_200: "gcd_loop 200 800 = 200"
  by (simp add: gcd_loop.simps smod_int_alt_def)

theorem rate_limiter_register_witness:
  "ctor_finish \<lparr>atoi = (\<lambda>s. 0), sscanf_mac = (\<lambda>s. (0, \<lambda>i. 0)), fopen_ok = (\<lambda>s. True)\<rparr>
      (ctor_start\<lparr>netbw := 200, v_LINKLATENCY := 7, v_loopback := True\<rparr>)
     = Inr \<lparr>loopback = True, mac_lendian = 0, LINKLATENCY = 7, rlimit_inc = 1,
            rlimit_period = 4, rlimit_size = 8, currentround = 0,
            pcis_read_bufs = [0, 1], pcis_write_bufs = [0, 1]\<rparr>
   \<and> (\<exists>rest. trace (world_of (init 0 0 448
          \<lparr>loopback = True, mac_lendian = 0, LINKLATENCY = 7, rlimit_inc = 1,
            rlimit_period = 4, rlimit_size = 8, currentround = 0,
            pcis_read_bufs = [0, 1], pcis_write_bufs = [0, 1]\<rparr>
          \<lparr>bufs = [], trace = []\<rparr>)) =
        [MmioWrite macaddr_upper 0, MmioWrite macaddr_lower 0,
         MmioWrite rlimit_settings 0x100C08] @ rest)"
proof -
  let ?lc = "\<lparr>atoi = (\<lambda>s. 0), sscanf_mac = (\<lambda>s. (0, \<lambda>i. 0)), fopen_ok = (\<lambda>s. True)\<rparr>"
  let ?v = "ctor_start\<lparr>netbw := 200, v_LINKLATENCY := 7, v_loopback := True\<rparr>"
  let ?nic = "\<lparr>loopback = True, mac_lendian = 0, LINKLATENCY = 7, rlimit_inc = 1,
            rlimit_period = 4, rlimit_size = 8, currentround = 0,
            pcis_read_bufs = [0, 1], pcis_write_bufs = [0, 1]\<rparr>"
  have ok: "ctor_finish ?lc ?v = Inr ?nic"
    by (simp add: ctor_finish_def ctor_start_def simplify_frac_def MAX_BANDWIDTH_def
        gcd_loop_200 signed_divide_int_def)
  have bw: "0 < netbw ?v" "netbw ?v \<le> MAX_BANDWIDTH" and burst: "netburst ?v < 256"
    by (simp_all add: ctor_start_def MAX_BANDWIDTH_def)
  show ?thesis
    using rate_limiter_register [OF ok bw burst, of 0 0 448 "\<lparr>bufs = [], trace = []\<rparr>"] ok
    by (simp add: ctor_start_def)
qed

section \<open>Properties of the tick loop\<close>

lemma poll_sentinel_finds:
  "f k \<noteq> 0 \<Longrightarrow> n \<le> k \<Longrightarrow> \<exists>j. poll_sentinel f n = Some j"
proof (induction "k - n" arbitrary: n)
  case 0
  then have "n = k" by simp
  with 0 show ?case by (subst poll_sentinel.simps) simp
next
  case (Suc d)
  then have "\<exists>j. poll_sentinel f (Suc n) = Some j" by (intro Suc.hyps) auto
  then show ?case by (subst poll_sentinel.simps) auto
qed

lemma SIMLATENCY_BT_eq: "0 \<le> LINKLATENCY nic \<Longrightarrow> SIMLATENCY_BT nic = LINKLATENCY nic"
  by (simp add: SIMLATENCY_BT_def TOKENS_PER_BIGTOKEN_nic_def PCIE_WIDTH_BITS_def
      FLIT_WIDTH_BITS_def VAL_BITS_def signed_divide_int_def sgn_if)

lemma store_byte_Some:
  assumes "h < length (bufs w)" "0 \<le> off" "off < int (length (bufs w ! h))"
  shows "\<exists>w'. store_byte h off v w = Some w'
           \<and> trace w' = trace w @ [StoreByte h (nat off) v]
           \<and> bufs w' ! h ! nat off = v
           \<and> length (bufs w') = length (bufs w)
           \<and> (\<forall>h'. length (bufs w' ! h') = length (bufs w ! h'))
           \<and> (\<forall>h'. h' \<noteq> h \<longrightarrow> bufs w' ! h' = bufs w ! h')"
proof -
  have "length ((bufs w)[h := (bufs w ! h)[nat off := v]] ! h') = length (bufs w ! h')" for h'
    using assms(1) by (cases "h' = h") simp_all
  then show ?thesis using assms by (simp add: store_byte_def)
qed

lemma dma_pull_Some:
  assumes "h < length (bufs w)" "unat sz \<le> length (bufs w ! h)"
  shows "\<exists>w'. dma_pull h sz data w = Some w'
           \<and> trace w' = trace w @ [DmaPull h sz]
           \<and> length (bufs w') = length (bufs w)
           \<and> (\<forall>h'. length (bufs w' ! h') = length (bufs w ! h'))"
proof -
  let ?d = "take (unat sz) data"
  have d: "length ?d \<le> length (bufs w ! h)" using assms(2) by simp
  have "length ((bufs w)[h := ?d @ drop (length ?d) (bufs w ! h)] ! h') = length (bufs w ! h')" for h'
    using assms(1) d by (cases "h' = h") simp_all
  then show ?thesis using assms(1) d by (simp add: dma_pull_def Let_def)
qed

lemma dma_push_Some:
  assumes "h < length (bufs w)" "unat sz \<le> length (bufs w ! h)"
  shows "\<exists>w'. dma_push h sz w = Some w'
           \<and> trace w' = trace w @ [DmaPush h sz]
           \<and> bufs w' = bufs w"
  using assms by (simp add: dma_push_def emit_def)

lemma unat_word_of_int_le: "0 \<le> x \<Longrightarrow> int (unat (word_of_int x :: u32)) \<le> x"
  by (simp add: unat_eq_nat_uint uint_word_of_int zmod_le_nonneg_dividend)

lemma tick_full_window:
  assumes ready: "nic_ready nic w"
    and full: "min (outgoing_count_rd env) (word_of_int (SIMLATENCY_BT nic) - incoming_count_rd env)
                 = word_of_int (SIMLATENCY_BT nic)"
    and pull_ok: "pull_ret env = word_of_int (BUF_WIDTH_BITS * SIMLATENCY_BT nic)"
    and push_ok: "push_ret env = word_of_int (BUF_WIDTH_BITS * SIMLATENCY_BT nic)"
    and peer: "loopback nic \<or> (\<exists>k. polled env k \<noteq> 0)"
  shows "\<exists>w'. tick_iter env nic w
             = Some (Continue (nic\<lparr>currentround := 1 - currentround nic\<rparr>) w')
          \<and> trace w' = trace w @
              [DmaPull (pcis_read_bufs nic ! nat (currentround nic))
                 (word_of_int (BUF_WIDTH_BITS * SIMLATENCY_BT nic)),
               StoreByte (pcis_read_bufs nic ! nat (currentround nic)) (nat (BUF_BYTES nic)) 1,
               DmaPush (pcis_write_bufs nic ! nat (currentround nic))
                 (word_of_int (BUF_WIDTH_BITS * SIMLATENCY_BT nic)),
               StoreByte (pcis_write_bufs nic ! nat (currentround nic)) (nat (BUF_BYTES nic)) 0]
          \<and> bufs w' ! (pcis_write_bufs nic ! nat (currentround nic)) ! nat (BUF_BYTES nic) = 0
          \<and> (pcis_read_bufs nic ! nat (currentround nic)
                \<noteq> pcis_write_bufs nic ! nat (currentround nic)
              \<longrightarrow> bufs w' ! (pcis_read_bufs nic ! nat (currentround nic)) ! nat (BUF_BYTES nic) = 1)"
proof -
  let ?rb = "pcis_read_bufs nic ! nat (currentround nic)"
  let ?wb = "pcis_write_bufs nic ! nat (currentround nic)"
  let ?sz = "word_of_int (BUF_WIDTH_BITS * SIMLATENCY_BT nic) :: u32"
  let ?t = "word_of_int (SIMLATENCY_BT nic) :: u32"
  have cr: "currentround nic = 0 \<or> currentround nic = 1"
    and ll: "0 < LINKLATENCY nic"
    and l2: "length (pcis_read_bufs nic) = 2" "length (pcis_write_bufs nic) = 2"
    and all: "list_all (\<lambda>h. h < length (bufs w)
                \<and> int (length (bufs w ! h)) = BUF_BYTES nic + EXTRA_BYTES)
          (pcis_read_bufs nic @ pcis_write_bufs nic)"
    using ready by (simp_all add: nic_ready_def)
  have idx: "nat (currentround nic) < 2" using cr by auto
  have "?rb \<in> set (pcis_read_bufs nic)" "?wb \<in> set (pcis_write_bufs nic)"
    using idx l2 by simp_all
  then have len: "int (length (bufs w ! ?rb)) = BUF_BYTES nic + 1"
      "int (length (bufs w ! ?wb)) = BUF_BYTES nic + 1"
    and hv: "?rb < length (bufs w)" "?wb < length (bufs w)"
    using all by (auto simp: list_all_iff EXTRA_BYTES_def)
  have bb: "0 \<le> BUF_BYTES nic"
    using ll by (simp add: BUF_BYTES_def SIMLATENCY_BT_eq BUF_WIDTH_BITS_def)
  have szeq: "word_of_int BUF_WIDTH_BITS * ?t = ?sz" "?t * word_of_int BUF_WIDTH_BITS = ?sz"
    by (simp_all add: mult.commute)
  have szle: "int (unat ?sz) \<le> BUF_BYTES nic"
    using unat_word_of_int_le [of "BUF_WIDTH_BITS * SIMLATENCY_BT nic"] bb
    by (simp add: BUF_BYTES_def mult.commute)
  have "unat ?sz \<le> length (bufs w ! ?rb)" using szle len by linarith
  from dma_pull_Some [OF hv(1) this, of "pull_data env"]
  obtain w1 where w1: "dma_pull ?rb ?sz (pull_data env) w = Some w1"
      "trace w1 = trace w @ [DmaPull ?rb ?sz]"
      "length (bufs w1) = length (bufs w)"
      "\<And>h'. length (bufs w1 ! h') = length (bufs w ! h')"
    by blast
  have "BUF_BYTES nic < int (length (bufs w1 ! ?rb))" using len w1(4) by simp
  from store_byte_Some [OF _ bb this, of 1]
  obtain w2 where w2: "store_byte ?rb (BUF_BYTES nic) 1 w1 = Some w2"
      "trace w2 = trace w1 @ [StoreByte ?rb (nat (BUF_BYTES nic)) 1]"
      "bufs w2 ! ?rb ! nat (BUF_BYTES nic) = 1"
      "length (bufs w2) = length (bufs w1)"
      "\<And>h'. length (bufs w2 ! h') = length (bufs w1 ! h')"
    using hv(1) w1(3) by auto
  have poll: "\<exists>j. (if \<not> loopback nic then poll_sentinel (polled env) 0 else Some 0) = Some j"
    using peer poll_sentinel_finds [of "polled env" _ 0] by auto
  have "unat ?sz \<le> length (bufs w ! ?wb)" using szle len by linarith
  then have "unat ?sz \<le> length (bufs w2 ! ?wb)" by (simp only: w1(4) w2(5))
  moreover have hw2: "?wb < length (bufs w2)" using hv(2) by (simp only: w1(3) w2(4))
  ultimately obtain w3 where w3: "dma_push ?wb ?sz w2 = Some w3"
      "trace w3 = trace w2 @ [DmaPush ?wb ?sz]" "bufs w3 = bufs w2"
    using dma_push_Some by blast
  have "BUF_BYTES nic < int (length (bufs w3 ! ?wb))" using len w1(4) w2(5) w3(3) by simp
  from store_byte_Some [OF _ bb this, of 0]
  obtain w4 where w4: "store_byte ?wb (BUF_BYTES nic) 0 w3 = Some w4"
      "trace w4 = trace w3 @ [StoreByte ?wb (nat (BUF_BYTES nic)) 0]"
      "bufs w4 ! ?wb ! nat (BUF_BYTES nic) = 0"
      "\<And>h'. h' \<noteq> ?wb \<Longrightarrow> bufs w4 ! h' = bufs w3 ! h'"
    using hw2 w3(3) by auto
  have flip: "(currentround nic + 1) smod 2 = 1 - currentround nic"
    using cr by (auto simp: smod_int_alt_def)
  from poll obtain j where j: "(if \<not> loopback nic then poll_sentinel (polled env) 0 else Some 0) = Some j"
    by blast
  have inr: "0 \<le> currentround nic \<and> currentround nic < 2" using cr by auto
  have "tick_iter env nic w = Some (Continue (nic\<lparr>currentround := 1 - currentround nic\<rparr>) w4)"
    unfolding tick_iter_def Let_def full szeq w1(1) w2(1) j w3(1) w4(1) pull_ok push_ok flip
    using inr by (simp only: option.case if_True if_False not_True_eq_False simp_thms
        w1(1) w2(1) j w3(1) w4(1))
  moreover have "trace w4 = trace w @ [DmaPull ?rb ?sz, StoreByte ?rb (nat (BUF_BYTES nic)) 1,
      DmaPush ?wb ?sz, StoreByte ?wb (nat (BUF_BYTES nic)) 0]"
    by (simp add: w1(2) w2(2) w3(2) w4(2))
  moreover have "?rb \<noteq> ?wb \<longrightarrow> bufs w4 ! ?rb ! nat (BUF_BYTES nic) = 1"
    using w4(4) [of ?rb] w3(3) w2(3) by simp
  ultimately show ?thesis using w4(3) by blast
qed


lemma tick_window_not_ready:
  assumes "min (outgoing_count_rd env) (word_of_int (SIMLATENCY_BT nic) - incoming_count_rd env)
             \<noteq> word_of_int (SIMLATENCY_BT nic)"
  shows "tick_iter env nic w = Some (Return w)"
  using assms by (simp add: tick_iter_def Let_def)

text \<open>
  Claim C7, amended. In one pass of the loop of \<^verbatim>\<open>tick()\<close>, with
  \<open>t = min(outgoing_count, SIMLATENCY_BT - incoming_count)\<close>: if \<open>t \<noteq> SIMLATENCY_BT\<close> the
  tick returns and the world (DMA trace, buffers, sentinels) is unchanged; if
  \<open>t = SIMLATENCY_BT\<close>, both DMA calls report the full byte count and, outside loopback, the
  peer's sentinel is eventually nonzero, the pass does exactly one pull and one push of
  \<open>BUF_WIDTH_BITS * SIMLATENCY_BT\<close> bytes, stores 1 in the read buffer's sentinel and 0 in
  the write buffer's, and leaves \<open>currentround = 1 - currentround\<close>.
\<close>

theorem tick_window_gating:
  "(min (outgoing_count_rd env) (word_of_int (SIMLATENCY_BT nic) - incoming_count_rd env)
        \<noteq> word_of_int (SIMLATENCY_BT nic)
      \<longrightarrow> tick_iter env nic w = Some (Return w))
   \<and> (min (outgoing_count_rd env) (word_of_int (SIMLATENCY_BT nic) - incoming_count_rd env)
        = word_of_int (SIMLATENCY_BT nic)
      \<and> nic_ready nic w
      \<and> pull_ret env = word_of_int (BUF_WIDTH_BITS * SIMLATENCY_BT nic)
      \<and> push_ret env = word_of_int (BUF_WIDTH_BITS * SIMLATENCY_BT nic)
      \<and> (loopback nic \<or> (\<exists>k. polled env k \<noteq> 0))
      \<longrightarrow> (\<exists>w'. tick_iter env nic w
                 = Some (Continue (nic\<lparr>currentround := 1 - currentround nic\<rparr>) w')
             \<and> trace w' = trace w @
                 [DmaPull (pcis_read_bufs nic ! nat (currentround nic))
                    (word_of_int (BUF_WIDTH_BITS * SIMLATENCY_BT nic)),
                  StoreByte (pcis_read_bufs nic ! nat (currentround nic)) (nat (BUF_BYTES nic)) 1,
                  DmaPush (pcis_write_bufs nic ! nat (currentround nic))
                    (word_of_int (BUF_WIDTH_BITS * SIMLATENCY_BT nic)),
                  StoreByte (pcis_write_bufs nic ! nat (currentround nic)) (nat (BUF_BYTES nic)) 0]
             \<and> bufs w' ! (pcis_write_bufs nic ! nat (currentround nic)) ! nat (BUF_BYTES nic) = 0
             \<and> (pcis_read_bufs nic ! nat (currentround nic)
                   \<noteq> pcis_write_bufs nic ! nat (currentround nic)
                 \<longrightarrow> bufs w' ! (pcis_read_bufs nic ! nat (currentround nic))
                       ! nat (BUF_BYTES nic) = 1)))"
  using tick_window_not_ready [of env nic w] tick_full_window [of nic w env]
  by blast

lemmas nic_consts = SIMLATENCY_BT_def TOKENS_PER_BIGTOKEN_nic_def PCIE_WIDTH_BITS_def
  FLIT_WIDTH_BITS_def VAL_BITS_def BUF_WIDTH_BITS_def BUF_BYTES_def EXTRA_BYTES_def
  signed_divide_int_def

theorem tick_window_gating_witness:
  "tick_iter \<lparr>outgoing_count_rd = 0, incoming_count_rd = 0, pull_data = [], pull_ret = 0,
              polled = of_nat, push_ret = 0\<rparr> shmem_nic fresh_world = Some (Return fresh_world)
   \<and> nic_ready shmem_nic fresh_world
   \<and> (\<exists>w'. tick_iter \<lparr>outgoing_count_rd = 1, incoming_count_rd = 0, pull_data = [], pull_ret = 64,
              polled = of_nat, push_ret = 64\<rparr> shmem_nic fresh_world
            = Some (Continue (shmem_nic\<lparr>currentround := 0\<rparr>) w')
          \<and> trace w' = [DmaPull 2 64, StoreByte 2 64 1, DmaPush 3 64, StoreByte 3 64 0]
          \<and> bufs w' ! 3 ! 64 = 0 \<and> bufs w' ! 2 ! 64 = 1)"
proof -
  let ?e0 = "\<lparr>outgoing_count_rd = 0, incoming_count_rd = 0, pull_data = [], pull_ret = 0,
              polled = of_nat, push_ret = 0\<rparr> :: tick_env"
  let ?e1 = "\<lparr>outgoing_count_rd = 1, incoming_count_rd = 0, pull_data = [], pull_ret = 64,
              polled = of_nat, push_ret = 64\<rparr> :: tick_env"
  have sbt: "SIMLATENCY_BT shmem_nic = 1" "BUF_BYTES shmem_nic = 64"
    by (simp_all add: shmem_nic_def nic_consts)
  have r: "nic_ready shmem_nic fresh_world"
    by (simp add: nic_ready_def sbt EXTRA_BYTES_def) (simp add: shmem_nic_def fresh_world_def)
  have p: "\<exists>k. polled ?e1 k \<noteq> 0"
    by (rule exI [of _ 1]) simp
  have a: "tick_iter ?e0 shmem_nic fresh_world = Some (Return fresh_world)"
    using tick_window_gating [of ?e0 shmem_nic fresh_world] by (simp add: sbt)
  have b: "\<exists>w'. tick_iter ?e1 shmem_nic fresh_world
            = Some (Continue (shmem_nic\<lparr>currentround := 0\<rparr>) w')
          \<and> trace w' = [DmaPull 2 64, StoreByte 2 64 1, DmaPush 3 64, StoreByte 3 64 0]
          \<and> bufs w' ! 3 ! 64 = 0 \<and> bufs w' ! 2 ! 64 = 1"
    using tick_window_gating [of ?e1 shmem_nic fresh_world] r p
    by (simp add: sbt BUF_WIDTH_BITS_def) (simp add: shmem_nic_def fresh_world_def)
  from a r b show ?thesis by blast
qed

text \<open>
  A full window whose DMA pull comes back short: the pass stops at the first
  \<^verbatim>\<open>exit(1)\<close>, after the pull and the store to the read sentinel, with no push.
\<close>

theorem tick_short_pull_counterexample:
  "min (outgoing_count_rd \<lparr>outgoing_count_rd = 1, incoming_count_rd = 0, pull_data = [],
                           pull_ret = 0, polled = of_nat, push_ret = 64\<rparr>)
       (word_of_int (SIMLATENCY_BT loopback_nic)
          - incoming_count_rd \<lparr>outgoing_count_rd = 1, incoming_count_rd = 0, pull_data = [],
                                pull_ret = 0, polled = of_nat, push_ret = 64\<rparr>)
     = word_of_int (SIMLATENCY_BT loopback_nic)
   \<and> tick_iter \<lparr>outgoing_count_rd = 1, incoming_count_rd = 0, pull_data = [], pull_ret = 0,
                polled = of_nat, push_ret = 64\<rparr> loopback_nic fresh_world
     = Some (Fatal (Exit 1)
         \<lparr>bufs = (replicate 4 (replicate 65 0))[0 := (replicate 65 0)[64 := 1]],
          trace = [DmaPull 0 64, StoreByte 0 64 1]\<rparr>)"
proof -
  have sbt: "SIMLATENCY_BT loopback_nic = 1" "BUF_BYTES loopback_nic = 64"
    by (simp_all add: loopback_nic_def nic_consts)
  have cr: "currentround loopback_nic = 0" "pcis_read_bufs loopback_nic = [0, 1]"
    by (simp_all add: loopback_nic_def)
  show ?thesis
    by (simp add: tick_iter_def sbt cr BUF_WIDTH_BITS_def dma_pull_def store_byte_def
        fresh_world_def)
qed

text \<open>
  Claim C9 (the code does otherwise). An argument \<^verbatim>\<open>+macaddrN=...\<close> for which
  \<^verbatim>\<open>sscanf\<close> does not assign exactly six items only appends the message to stderr: the
  loop goes on to the next argument with every variable unchanged, and nothing exits.
\<close>

theorem malformed_mac_not_fatal:
  assumes p: "prefix (''+macaddr'' @ num @ ''='') arg"
    and bad: "fst (sscanf_mac lc (drop (length (''+macaddr'' @ num @ ''='')) arg)) \<noteq> 6"
  shows "handle_arg lc num arg v
       = v\<lparr>v_stderr := v_stderr v @ [''INVALID MAC ADDRESS SUPPLIED WITH +macaddrN='']\<rparr>"
proof -
  from p obtain rest where arg: "arg = ''+macaddr'' @ num @ ''='' @ rest"
    by (auto simp: prefix_def)
  show ?thesis
    using bad unfolding handle_arg_def Let_def arg
    by (cases "sscanf_mac lc rest") auto
qed

theorem malformed_mac_not_fatal_witness:
  "simplenic_ctor \<lparr>atoi = (\<lambda>s. 7), sscanf_mac = (\<lambda>s. (0, (\<lambda>i. 0))), fopen_ok = (\<lambda>s. True)\<rparr>
      ''0'' [''+nic-loopback0'', ''+linklatency0=7'', ''+macaddr0=zz'']
    = Inr \<lparr>loopback = True, mac_lendian = 0, LINKLATENCY = 7, rlimit_inc = 1,
           rlimit_period = 1, rlimit_size = 8, currentround = 0,
           pcis_read_bufs = [0, 1], pcis_write_bufs = [0, 1]\<rparr>
   \<and> v_stderr (parse_args \<lparr>atoi = (\<lambda>s. 7), sscanf_mac = (\<lambda>s. (0, (\<lambda>i. 0))), fopen_ok = (\<lambda>s. True)\<rparr>
        ''0'' [''+nic-loopback0'', ''+linklatency0=7'', ''+macaddr0=zz''])
     = [''INVALID MAC ADDRESS SUPPLIED WITH +macaddrN='']"
proof -
  let ?lc = "\<lparr>atoi = (\<lambda>s. 7), sscanf_mac = (\<lambda>s. (0, (\<lambda>i. 0))), fopen_ok = (\<lambda>s. True)\<rparr>"
  have h1: "handle_arg ?lc ''0'' ''+nic-loopback0'' ctor_start = ctor_start\<lparr>v_loopback := True\<rparr>"
    by (simp add: handle_arg_def)
  have h2: "handle_arg ?lc ''0'' ''+linklatency0=7'' (ctor_start\<lparr>v_loopback := True\<rparr>)
      = ctor_start\<lparr>v_loopback := True, v_LINKLATENCY := 7\<rparr>"
    by (simp add: handle_arg_def)
  have m: "handle_arg ?lc ''0'' ''+macaddr0=zz'' (ctor_start\<lparr>v_loopback := True, v_LINKLATENCY := 7\<rparr>)
      = ctor_start\<lparr>v_loopback := True, v_LINKLATENCY := 7,
          v_stderr := [''INVALID MAC ADDRESS SUPPLIED WITH +macaddrN='']\<rparr>"
    using malformed_mac_not_fatal [of "''0''" "''+macaddr0=zz''" ?lc
        "ctor_start\<lparr>v_loopback := True, v_LINKLATENCY := 7\<rparr>"]
    by (simp add: ctor_start_def)
  have g: "gcd_loop 800 800 = 800"
    by (simp add: gcd_loop.simps smod_int_alt_def)
  have pa: "parse_args ?lc ''0'' [''+nic-loopback0'', ''+linklatency0=7'', ''+macaddr0=zz'']
      = ctor_start\<lparr>v_loopback := True, v_LINKLATENCY := 7,
          v_stderr := [''INVALID MAC ADDRESS SUPPLIED WITH +macaddrN='']\<rparr>"
    by (simp only: parse_args_def fold_simps id_apply comp_apply h1 h2 m)
  show ?thesis
    unfolding simplenic_ctor_def pa
    by (simp add: ctor_finish_def ctor_start_def simplify_frac_def MAX_BANDWIDTH_def g
        signed_divide_int_def)
qed

section \<open>Properties of the codec and of the destination lookup\<close>

lemmas codec_consts = FLIT_SIZE_BITS_def BIGTOKEN_SIZE_BITS_def FLIT_SIZE_BYTES_def
  BIGTOKEN_SIZE_BYTES_def signed_divide_int_def signed_modulo_int_def

lemma TOKENS_PER_BIGTOKEN_7: "TOKENS_PER_BIGTOKEN = 7"
  by (simp add: TOKENS_PER_BIGTOKEN_def codec_consts)

lemma bigtoken_byte5_nth: "bigtoken_byte5 x ! 5 = x" "length (bigtoken_byte5 x) = 64"
  by (simp_all add: bigtoken_byte5_def nth_append)

text \<open>
  Claim C6 (the code does otherwise). \<^verbatim>\<open>is_valid_flit\<close> and \<^verbatim>\<open>is_last_flit\<close> shift the
  byte right and return it as \<^verbatim>\<open>bool\<close> without masking the low bit, so a higher bit of the
  same byte makes them true: with only the last bit of flit 0 set (bit 45) flit 0 is reported
  valid, and with only the valid bit of flit 1 set (bit 46) flit 0 is reported last.
\<close>

theorem meta_observers_not_exact:
  "is_valid_flit (bigtoken_byte5 0x20) 0 = Some True
   \<and> \<not> spec_valid_bit (bigtoken_byte5 0x20) 0
   \<and> is_last_flit (bigtoken_byte5 0x40) 0 = Some True
   \<and> \<not> spec_last_bit (bigtoken_byte5 0x40) 0"
  by (simp add: is_valid_flit_def is_last_flit_def TOKENS_PER_BIGTOKEN_7 codec_consts peek_def
      bigtoken_byte5_nth spec_valid_bit_def spec_last_bit_def buffer_bit_def)




lemma is_multicast_bit16:
  "(ucast (drop_bit 16 (w :: u64) AND 0x1) :: u16) \<noteq> 0 \<longleftrightarrow> bit w 16"
proof -
  have "drop_bit 16 w AND 1 = of_bool (bit w 16)"
    by (simp add: and_one_eq mod_2_eq_odd bit_iff_odd_drop_bit)
  then show ?thesis by simp
qed

lemma flit_low_mask:
  "((ucast (drop_bit 48 (w :: u64) AND 0xFFFF) :: u16)) = ucast (drop_bit 48 w)"
proof -
  have m: "(0xFFFF :: u64) = mask 16" by (simp add: mask_eq_exp_minus_1)
  show ?thesis unfolding m by (rule bit_eqI) (auto simp: bit_simps)
qed

lemma and_ffff_u16: "(x :: u16) AND 0xFFFF = x"
proof -
  have "(0xFFFF :: u16) = - 1" by simp
  then show ?thesis by (simp only: and.right_neutral)
qed

lemma uint_word_of_int_u16: "0 \<le> x \<Longrightarrow> x < 65536 \<Longrightarrow> uint (word_of_int x :: u16) = x"
  by (simp add: uint_word_of_int)

lemma load64_Some: "8 \<le> length buf \<Longrightarrow> \<exists>w. load64 buf = Some w"
  by (simp add: load64_def memread_def)

lemma uplink_range:
  assumes "0 \<le> r" "0 < nu" "0 \<le> nd" "nd + nu \<le> 0xffff"
  shows "nd \<le> uint (word_of_int (r smod nu + nd) :: u16)"
    and "uint (word_of_int (r smod nu + nd) :: u16) < nd + nu"
    and "(word_of_int (r smod nu + nd) :: u16) \<noteq> 0xffff"
proof -
  have m: "r smod nu = r mod nu"
    using assms by (simp add: smod_int_alt_def sgn_if)
  have b: "0 \<le> r mod nu" "r mod nu < nu" using assms by simp_all
  then have "0 \<le> r mod nu + nd" "r mod nu + nd < 65535" using assms by linarith+
  then have u: "uint (word_of_int (r mod nu + nd) :: u16) = r mod nu + nd"
    by (intro uint_word_of_int_u16) linarith+
  show "nd \<le> uint (word_of_int (r smod nu + nd) :: u16)"
    and "uint (word_of_int (r smod nu + nd) :: u16) < nd + nu"
    unfolding m u using b by linarith+
  have "uint (word_of_int (r smod nu + nd) :: u16) \<noteq> uint (0xffff :: u16)"
    unfolding m u using \<open>r mod nu + nd < 65535\<close> by simp
  then show "(word_of_int (r smod nu + nd) :: u16) \<noteq> 0xffff" by auto
qed

lemma printed_items_Some:
  assumes "32 \<le> length flit_buf"
  shows "load64_at flit_buf (3 * FLIT_SIZE_BYTES) \<noteq> None"
    and "load64_at flit_buf (2 * FLIT_SIZE_BYTES) \<noteq> None"
    and "load64_at flit_buf (1 * FLIT_SIZE_BYTES) \<noteq> None"
    and "load64_at flit_buf (0 * FLIT_SIZE_BYTES) \<noteq> None"
    and "load64_at flit_buf FLIT_SIZE_BYTES \<noteq> None"
    and "load64_at flit_buf 0 \<noteq> None"
  using assms by (simp_all add: load64_at_def memread_def codec_consts)

text \<open>
  Claim C5, as the claim words it, fails in three ways. Without an uplink, a MAC that the
  table sends to "any uplink" makes the code compute \<^verbatim>\<open>rand() % 0\<close>; a table entry
  \<open>0xffff\<close> is returned as it is, and is the broadcast sentinel although bit 16 of the flit
  is 0; and with \<open>NUMDOWNLINKS + NUMUPLINKS\<close> above \<open>0xffff\<close> the uplink chosen wraps around
  in the \<^verbatim>\<open>uint16_t\<close>, here to port 0.
\<close>

theorem destination_lookup_counterexample:
  "load64 ([0, 0, 0, 0, 0, 0, 7, 7] @ replicate 24 0) = Some 0x0707000000000000
   \<and> load64 ([0, 0, 0, 0, 0, 0, 2, 1] @ replicate 24 0) = Some 0x0102000000000000
   \<and> \<not> bit (0x0707000000000000 :: u64) 16
   \<and> \<not> bit (0x0102000000000000 :: u64) 16
   \<and> get_port_from_flit no_uplink_config 5 ([0, 0, 0, 0, 0, 0, 7, 7] @ replicate 24 0)
       = Inl DivisionByZero
   \<and> get_port_from_flit sentinel_entry_config 5 ([0, 0, 0, 0, 0, 0, 2, 1] @ replicate 24 0)
       = Inr 0xffff
   \<and> get_port_from_flit many_downlinks_config 5 ([0, 0, 0, 0, 0, 0, 7, 7] @ replicate 24 0)
       = Inr 0"
  by code_simp

text \<open>
  Claim C5, amended. For a configuration whose ports are numbered below the broadcast
  sentinel (no table entry is \<open>0xffff\<close>, \<open>NUMDOWNLINKS + NUMUPLINKS \<le> 0xffff\<close>) and that maps
  a MAC to "any uplink" only if there is an uplink, and for every buffer of at least 32
  bytes, which the function reads before the lookup:
  \<^verbatim>\<open>get_port_from_flit\<close> returns \<open>0xffff\<close> exactly when bit 16 of the first 64-bit word is
  set; otherwise, with \<open>dest_mac_low\<close> the byte-swapped bits 48 to 63, it returns
  \<open>mac2port[dest_mac_low]\<close> when that differs from \<open>NUMDOWNLINKS\<close>, and else a port in
  \<open>[NUMDOWNLINKS, NUMDOWNLINKS + NUMUPLINKS)\<close>, whatever \<^verbatim>\<open>rand()\<close> returns.
\<close>

theorem destination_lookup:
  assumes len: "32 \<le> length flit_buf"
    and tbl: "\<forall>m. mac2port cfg m \<noteq> 0xffff"
    and nd: "0 \<le> NUMDOWNLINKS cfg" "0 \<le> NUMUPLINKS cfg"
         "NUMDOWNLINKS cfg + NUMUPLINKS cfg \<le> 0xffff"
    and up: "NUMUPLINKS cfg = 0 \<longrightarrow> (\<forall>m. uint (mac2port cfg m) \<noteq> NUMDOWNLINKS cfg)"
    and r: "0 \<le> r"
  shows "\<exists>w. load64 flit_buf = Some w
      \<and> (get_port_from_flit cfg r flit_buf = Inr 0xffff \<longleftrightarrow> bit w 16)
      \<and> (\<not> bit w 16
           \<and> uint (mac2port cfg (bswap16 (ucast (drop_bit 48 w)))) \<noteq> NUMDOWNLINKS cfg
          \<longrightarrow> get_port_from_flit cfg r flit_buf
                = Inr (mac2port cfg (bswap16 (ucast (drop_bit 48 w)))))
      \<and> (\<not> bit w 16
           \<and> uint (mac2port cfg (bswap16 (ucast (drop_bit 48 w)))) = NUMDOWNLINKS cfg
          \<longrightarrow> (\<exists>p. get_port_from_flit cfg r flit_buf = Inr p
                 \<and> NUMDOWNLINKS cfg \<le> uint p
                 \<and> uint p < NUMDOWNLINKS cfg + NUMUPLINKS cfg))"
proof -
  from len have "8 \<le> length flit_buf" by simp
  from load64_Some [OF this] obtain w where w: "load64 flit_buf = Some w" by blast
  note pr = printed_items_Some [OF len]
  let ?e = "mac2port cfg (bswap16 (ucast (drop_bit 48 w)))"
  have g: "get_port_from_flit cfg r flit_buf =
      (if bit w 16 then Inr 0xffff
       else if uint ?e = NUMDOWNLINKS cfg
            then (if NUMUPLINKS cfg = 0 then Inl DivisionByZero
                  else Inr (word_of_int (r smod NUMUPLINKS cfg + NUMDOWNLINKS cfg)))
            else Inr ?e)"
    by (simp add: get_port_from_flit_def pr w Let_def is_multicast_bit16 flit_low_mask
        BROADCAST_ADJUSTED_def and_ffff_u16 del: of_int_add)
  show ?thesis
  proof (cases "bit w 16")
    case True
    then show ?thesis using w g by simp
  next
    case nb: False
    show ?thesis
    proof (cases "uint ?e = NUMDOWNLINKS cfg")
      case False
      then show ?thesis using w g nb tbl by simp
    next
      case True
      then have nu: "0 < NUMUPLINKS cfg" using up nd(2) by (cases "NUMUPLINKS cfg = 0") auto
      note ur = uplink_range [OF r nu nd(1) nd(3)]
      show ?thesis using w g nb True nu ur by simp
    qed
  qed
qed

theorem destination_lookup_witness:
  "get_port_from_flit
     \<lparr>NUMPORTS = 3, NUMDOWNLINKS = 2, NUMUPLINKS = 1, mac2port = (\<lambda>m. if m = 0x0201 then 1 else 2),
      ETH_MAX_WORDS = 190, ETH_EXTRA_FLITS = 10,
      LINKLATENCY_sw = 7, switchlat = 10\<rparr> 5 ([0, 0, 1, 0, 0, 0, 1, 2] @ replicate 24 0) = Inr 0xffff
   \<and> get_port_from_flit
     \<lparr>NUMPORTS = 3, NUMDOWNLINKS = 2, NUMUPLINKS = 1, mac2port = (\<lambda>m. if m = 0x0201 then 1 else 2),
      ETH_MAX_WORDS = 190, ETH_EXTRA_FLITS = 10,
      LINKLATENCY_sw = 7, switchlat = 10\<rparr> 5 ([0, 0, 0, 0, 0, 0, 2, 1] @ replicate 24 0) = Inr 1
   \<and> get_port_from_flit
     \<lparr>NUMPORTS = 3, NUMDOWNLINKS = 2, NUMUPLINKS = 1, mac2port = (\<lambda>m. if m = 0x0201 then 1 else 2),
      ETH_MAX_WORDS = 190, ETH_EXTRA_FLITS = 10,
      LINKLATENCY_sw = 7, switchlat = 10\<rparr> 5 ([0, 0, 0, 0, 0, 0, 7, 7] @ replicate 24 0) = Inr 2"
proof -
  let ?cfg = "\<lparr>NUMPORTS = 3, NUMDOWNLINKS = 2, NUMUPLINKS = 1,
      mac2port = (\<lambda>m. if m = 0x0201 then 1 else 2 :: u16),
      ETH_MAX_WORDS = 190, ETH_EXTRA_FLITS = 10,
      LINKLATENCY_sw = 7, switchlat = 10\<rparr>"
  have tbl: "\<forall>m. mac2port ?cfg m \<noteq> 0xffff" by simp
  have nd: "0 \<le> NUMDOWNLINKS ?cfg" "0 \<le> NUMUPLINKS ?cfg"
    "NUMDOWNLINKS ?cfg + NUMUPLINKS ?cfg \<le> 0xffff" by simp_all
  have up: "NUMUPLINKS ?cfg = 0 \<longrightarrow> (\<forall>m. uint (mac2port ?cfg m) \<noteq> NUMDOWNLINKS ?cfg)" by simp
  have r: "(0::int) \<le> 5" by simp
  have w1: "load64 ([0, 0, 1, 0, 0, 0, 1, 2] @ replicate 24 0) = Some 0x0201000000010000"
    and w2: "load64 ([0, 0, 0, 0, 0, 0, 2, 1] @ replicate 24 0) = Some 0x0102000000000000"
    and w3: "load64 ([0, 0, 0, 0, 0, 0, 7, 7] @ replicate 24 0) = Some 0x0707000000000000"
    by code_simp+
  have b: "bit (0x0201000000010000 :: u64) 16" "\<not> bit (0x0102000000000000 :: u64) 16"
    "\<not> bit (0x0707000000000000 :: u64) 16"
    "bswap16 (ucast (drop_bit 48 (0x0102000000000000 :: u64))) = 0x0201"
    "bswap16 (ucast (drop_bit 48 (0x0707000000000000 :: u64))) = 0x0707"
    by code_simp+
  have "get_port_from_flit ?cfg 5 ([0, 0, 1, 0, 0, 0, 1, 2] @ replicate 24 0) = Inr 0xffff"
    using destination_lookup [of "[0, 0, 1, 0, 0, 0, 1, 2] @ replicate 24 0" ?cfg 5, OF _ tbl nd up r] b
    by (simp add: w1 del: append.simps)
  moreover have "get_port_from_flit ?cfg 5 ([0, 0, 0, 0, 0, 0, 2, 1] @ replicate 24 0) = Inr 1"
    using destination_lookup [of "[0, 0, 0, 0, 0, 0, 2, 1] @ replicate 24 0" ?cfg 5, OF _ tbl nd up r] b
    by (simp add: w2 del: append.simps)
  moreover have "get_port_from_flit ?cfg 5 ([0, 0, 0, 0, 0, 0, 7, 7] @ replicate 24 0) = Inr 2"
  proof -
    from destination_lookup [of "[0, 0, 0, 0, 0, 0, 7, 7] @ replicate 24 0" ?cfg 5, OF _ tbl nd up r] b
    obtain p where p: "get_port_from_flit ?cfg 5 ([0, 0, 0, 0, 0, 0, 7, 7] @ replicate 24 0) = Inr p"
      "2 \<le> uint p" "uint p < 3"
      by (auto simp: w3 simp del: append.simps)
    then have "uint p = 2" by linarith
    then have "p = word_of_int 2" by (metis word_of_int_uint)
    then show ?thesis using p(1) by simp
  qed
  ultimately show ?thesis by blast
qed

section \<open>Properties of the routing order\<close>

lemma pop_order_Nil: "pop_order tp [] = []"
  by (simp add: pop_order.simps)

lemma pop_order_step:
  "q \<noteq> [] \<Longrightarrow> tp q < length q \<Longrightarrow>
   pop_order tp q = q ! tp q # pop_order tp (take (tp q) q @ drop (Suc (tp q)) q)"
  by (subst pop_order.simps) simp

lemma mset_remove_nth:
  "i < length q \<Longrightarrow> mset q = add_mset (q ! i) (mset (take i q @ drop (Suc i) q))"
  by (metis Cons_nth_drop_Suc append_take_drop_id mset.simps(2) mset_append union_mset_add_mset_right)

lemma pop_order_mset:
  assumes "pq_contract tp"
  shows "mset (pop_order tp q) = mset q"
proof (induction "length q" arbitrary: q)
  case 0
  then show ?case by (simp add: pop_order_Nil)
next
  case (Suc n)
  then have ne: "q \<noteq> []" by auto
  with assms have i: "tp q < length q" by (simp add: pq_contract_def)
  let ?q' = "take (tp q) q @ drop (Suc (tp q)) q"
  have "length ?q' = n" using Suc.hyps(2) i by simp
  then have "mset (pop_order tp ?q') = mset ?q'" using Suc.hyps(1) by simp
  then show ?case
    by (simp add: pop_order_step [of q tp, OF ne i] mset_remove_nth [OF i])
qed

lemma pop_order_sorted:
  assumes "pq_contract tp"
  shows "sorted_wrt (\<lambda>a b. ts_timestamp a \<le> ts_timestamp b) (pop_order tp q)"
proof (induction "length q" arbitrary: q)
  case 0
  then show ?case by (simp add: pop_order_Nil)
next
  case (Suc n)
  then have ne: "q \<noteq> []" by auto
  with assms have i: "tp q < length q"
    and least: "\<forall>e \<in> set q. ts_timestamp (q ! tp q) \<le> ts_timestamp e"
    by (auto simp: pq_contract_def tspacket_less_def not_less)
  let ?q' = "take (tp q) q @ drop (Suc (tp q)) q"
  have len: "length ?q' = n" using Suc.hyps(2) i by simp
  have "set (pop_order tp ?q') = set ?q'"
    using pop_order_mset [OF assms, of ?q'] by (metis set_mset_mset)
  also have "\<dots> \<subseteq> set q"
    by (auto dest: in_set_takeD in_set_dropD)
  finally have "\<forall>e \<in> set (pop_order tp ?q'). ts_timestamp (q ! tp q) \<le> ts_timestamp e"
    using least by blast
  moreover have "sorted_wrt (\<lambda>a b. ts_timestamp a \<le> ts_timestamp b) (pop_order tp ?q')"
    using Suc.hyps(1) len by simp
  ultimately show ?case
    by (simp add: pop_order_step [of q tp, OF ne i])
qed

lemma route_packets_in_order:
  assumes "pq_contract (pq_top env)"
  shows "route_packets cfg env k q s
       = route_in_order cfg (rand_value env) k (pop_order (pq_top env) q) s"
proof (induction "length q" arbitrary: q k s)
  case 0
  then show ?case by (simp add: pop_order_Nil route_packets.simps)
next
  case (Suc n)
  then have ne: "q \<noteq> []" by auto
  with assms have i: "pq_top env q < length q" by (simp add: pq_contract_def)
  let ?q' = "take (pq_top env q) q @ drop (Suc (pq_top env q)) q"
  have len: "n = length ?q'" using Suc.hyps(2) i by simp
  show ?case
    using Suc.hyps(1) [OF len]
    by (subst route_packets.simps)
       (simp add: pop_order_step [of q "pq_top env", OF ne i] ne i Let_def split: sum.splits)
qed

lemma drain_inputqueue_keys:
  assumes "drain_inputqueue s q pq = Inr pq'"
    and "\<forall>e \<in> set pq. \<exists>pk. pkt_at s (switchpack e) = Some pk \<and> timestamp pk = ts_timestamp e"
  shows "\<forall>e \<in> set pq'. \<exists>pk. pkt_at s (switchpack e) = Some pk \<and> timestamp pk = ts_timestamp e"
  using assms
  by (induction q arbitrary: pq) (auto split: option.splits)

lemma pkt_at_set_port [simp]: "pkt_at (set_port i p s) a = pkt_at s a"
  by (simp add: pkt_at_def set_port_def)

lemma dat_at_set_port [simp]: "dat_at (set_port i p s) a = dat_at s a"
  by (simp add: dat_at_def set_port_def)

lemma fill_pqueue_keys:
  assumes "fill_pqueue cfg i pq s = Inr (pq', s')"
    and "\<forall>e \<in> set pq. \<exists>pk. pkt_at s (switchpack e) = Some pk \<and> timestamp pk = ts_timestamp e"
  shows "\<forall>e \<in> set pq'. \<exists>pk. pkt_at s' (switchpack e) = Some pk \<and> timestamp pk = ts_timestamp e"
  using assms
proof (induction cfg i pq s rule: fill_pqueue.induct)
  case (1 cfg i pqueue s)
  show ?case
  proof (cases "i < NUMPORTS cfg")
    case False
    with "1.prems" show ?thesis by (simp add: fill_pqueue.simps [of cfg i])
  next
    case True
    from "1.prems"(1) True obtain p pq1 where
      p: "port_ref s i = Some p"
      and d: "drain_inputqueue s (inputqueue p) pqueue = Inr pq1"
      and r: "fill_pqueue cfg (i + 1) pq1 (set_port i (p\<lparr>inputqueue := []\<rparr>) s) = Inr (pq', s')"
      by (subst (asm) fill_pqueue.simps) (auto split: option.splits sum.splits)
    from drain_inputqueue_keys [OF d "1.prems"(2)]
    have "\<forall>e \<in> set pq1. \<exists>pk. pkt_at (set_port i (p\<lparr>inputqueue := []\<rparr>) s) (switchpack e) = Some pk
        \<and> timestamp pk = ts_timestamp e"
      by simp
    from "1.IH" [OF True p d r this] show ?thesis .
  qed
qed

section \<open>Properties of the broadcast\<close>

lemma copies_before_empty [simp]: "j \<le> i \<Longrightarrow> copies_before sndr i j = 0"
  by (simp add: copies_before_def)

lemma copies_before_step:
  "i < j \<Longrightarrow> copies_before sndr i j = (if int i \<noteq> sndr then 1 else 0) + copies_before sndr (Suc i) j"
  by (simp add: copies_before_def upt_conv_Cons)

lemma copies_before_last:
  "i \<le> j \<Longrightarrow> copies_before sndr i (Suc j) = copies_before sndr i j + (if int j \<noteq> sndr then 1 else 0)"
  by (simp add: copies_before_def)

lemma copies_before_mono:
  "i \<le> j \<Longrightarrow> j < k \<Longrightarrow> int j \<noteq> sndr \<Longrightarrow> copies_before sndr i j < copies_before sndr i k"
proof (induction k)
  case 0
  then show ?case by simp
next
  case (Suc k)
  show ?case
  proof (cases "j = k")
    case True
    with Suc.prems show ?thesis by (simp add: copies_before_last)
  next
    case False
    with Suc.prems have "j < k" by simp
    with Suc have "copies_before sndr i j < copies_before sndr i k" by simp
    moreover have "i \<le> k" using Suc.prems \<open>j < k\<close> by simp
    ultimately show ?thesis by (simp add: copies_before_last)
  qed
qed

lemma pkt_at_Some: "pkt_at s a = Some p \<longleftrightarrow> a < length (pkts s) \<and> pkts s ! a = Some p"
  by (simp add: pkt_at_def)

lemma dat_at_Some: "dat_at s a = Some d \<longleftrightarrow> a < length (dats s) \<and> dats s ! a = Some d"
  by (simp add: dat_at_def)

lemma broadcast_to_sender:
  assumes "pkt_at s tsp = Some pk" "i = sender pk"
  shows "broadcast_to cfg tsp i s = Inr s"
  using assms by (simp add: broadcast_to_def)

lemma broadcast_to_receiver:
  assumes pk: "pkt_at s tsp = Some pk"
    and d: "dat_at s (dat pk) = Some bytes"
    and len: "int (length bytes) = FLIT_SIZE_BYTES * (ETH_MAX_WORDS cfg + ETH_EXTRA_FLITS cfg)"
    and n: "n < length (ports s)"
    and r: "int n \<noteq> sender pk"
  shows "broadcast_to cfg tsp (int n) s =
     Inr (s\<lparr>ports := (ports s)[n := (ports s ! n)\<lparr>outputqueue :=
                           outputqueue (ports s ! n) @ [length (pkts s)]\<rparr>],
            pkts := pkts s @ [Some (pk\<lparr>dat := length (dats s)\<rparr>)],
            dats := dats s @ [Some bytes]\<rparr>)"
proof -
  have d1: "dat_at (s\<lparr>pkts := pkts s @ [Some pk]\<rparr>) (dat pk) = Some bytes"
    using d by (simp add: dat_at_Some)
  have m: "memread bytes 0 (FLIT_SIZE_BYTES * (ETH_MAX_WORDS cfg + ETH_EXTRA_FLITS cfg)) = Some bytes"
    using len by (simp add: memread_def flip: len)
  show ?thesis
    using pk r n
    by (simp add: broadcast_to_def new_pkt_def new_dat_def d1 m push_output_def port_ref_def
        set_port_def)
qed


lemma broadcast_loop_done:
  "\<not> i < NUMDOWNLINKS cfg + ADDUPLINK cfg \<Longrightarrow> broadcast_loop cfg tsp i s = Inr s"
  by (simp add: broadcast_loop.simps)

lemma broadcast_loop_step:
  "i < NUMDOWNLINKS cfg + ADDUPLINK cfg \<Longrightarrow> broadcast_to cfg tsp i s = Inr s1 \<Longrightarrow>
   broadcast_loop cfg tsp i s = broadcast_loop cfg tsp (i + 1) s1"
  by (subst broadcast_loop.simps) simp

lemma broadcast_loop_props:
  assumes len: "int (length bytes) = FLIT_SIZE_BYTES * (ETH_MAX_WORDS cfg + ETH_EXTRA_FLITS cfg)"
    and B: "int B = NUMDOWNLINKS cfg + ADDUPLINK cfg"
  shows "pkt_at s tsp = Some pk \<Longrightarrow> dat_at s (dat pk) = Some bytes \<Longrightarrow> B \<le> length (ports s) \<Longrightarrow>
    \<exists>s'. broadcast_loop cfg tsp (int n) s = Inr s'
      \<and> length (ports s') = length (ports s)
      \<and> this_iter_cycles_start s' = this_iter_cycles_start s
      \<and> length (pkts s') = length (pkts s) + copies_before (sender pk) n B
      \<and> (\<forall>a < length (pkts s). pkts s' ! a = pkts s ! a)
      \<and> length (dats s') = length (dats s) + copies_before (sender pk) n B
      \<and> (\<forall>a < length (dats s). dats s' ! a = dats s ! a)
      \<and> (\<forall>j < length (ports s). ports s' ! j =
            (if n \<le> j \<and> j < B \<and> int j \<noteq> sender pk
             then (ports s ! j)\<lparr>outputqueue := outputqueue (ports s ! j)
                     @ [length (pkts s) + copies_before (sender pk) n j]\<rparr>
             else ports s ! j))
      \<and> (\<forall>j. n \<le> j \<and> j < B \<and> int j \<noteq> sender pk \<longrightarrow>
            pkts s' ! (length (pkts s) + copies_before (sender pk) n j)
              = Some (pk\<lparr>dat := length (dats s) + copies_before (sender pk) n j\<rparr>)
            \<and> dats s' ! (length (dats s) + copies_before (sender pk) n j) = Some bytes)"
proof (induction "B - n" arbitrary: n s)
  case 0
  then have "\<not> int n < NUMDOWNLINKS cfg + ADDUPLINK cfg" using B by linarith
  then have "broadcast_loop cfg tsp (int n) s = Inr s" by (rule broadcast_loop_done)
  moreover have "B \<le> n" using 0 by simp
  ultimately show ?case by force
next
  case (Suc m)
  then have nB: "n < B" by simp
  then have lt: "int n < NUMDOWNLINKS cfg + ADDUPLINK cfg" using B by linarith
  have nl: "n < length (ports s)" using nB Suc.prems(3) by simp
  let ?c = "copies_before (sender pk)"
  show ?case
  proof (cases "int n = sender pk")
    case True
    have st: "broadcast_to cfg tsp (int n) s = Inr s"
      using Suc.prems(1) True by (simp add: broadcast_to_sender)
    have m: "m = B - Suc n" using Suc.hyps(2) by simp
    from Suc.hyps(1) [OF m Suc.prems]
    obtain s' where s': "broadcast_loop cfg tsp (int (Suc n)) s = Inr s'"
      "length (ports s') = length (ports s)"
      "this_iter_cycles_start s' = this_iter_cycles_start s"
      "length (pkts s') = length (pkts s) + ?c (Suc n) B"
      "\<forall>a < length (pkts s). pkts s' ! a = pkts s ! a"
      "length (dats s') = length (dats s) + ?c (Suc n) B"
      "\<forall>a < length (dats s). dats s' ! a = dats s ! a"
      "\<forall>j < length (ports s). ports s' ! j =
            (if Suc n \<le> j \<and> j < B \<and> int j \<noteq> sender pk
             then (ports s ! j)\<lparr>outputqueue := outputqueue (ports s ! j)
                     @ [length (pkts s) + ?c (Suc n) j]\<rparr>
             else ports s ! j)"
      "\<forall>j. Suc n \<le> j \<and> j < B \<and> int j \<noteq> sender pk \<longrightarrow>
            pkts s' ! (length (pkts s) + ?c (Suc n) j)
              = Some (pk\<lparr>dat := length (dats s) + ?c (Suc n) j\<rparr>)
            \<and> dats s' ! (length (dats s) + ?c (Suc n) j) = Some bytes"
      by blast
    have c: "?c n j = ?c (Suc n) j" if "n < j" for j
      using that True by (simp add: copies_before_step)
    have run: "broadcast_loop cfg tsp (int n) s = Inr s'"
      using broadcast_loop_step [OF lt st] s'(1) by (simp add: add.commute)
    have P: "ports s' ! j =
            (if n \<le> j \<and> j < B \<and> int j \<noteq> sender pk
             then (ports s ! j)\<lparr>outputqueue := outputqueue (ports s ! j)
                     @ [length (pkts s) + ?c n j]\<rparr>
             else ports s ! j)" if j: "j < length (ports s)" for j
    proof (cases "n < j")
      case nj: True
      then show ?thesis using s'(8) j c [OF nj] by (simp add: Suc_le_eq)
    next
      case False
      then have "\<not> (Suc n \<le> j)" "\<not> (n \<le> j \<and> int j \<noteq> sender pk)"
        using True by (auto simp: not_less)
      then show ?thesis using s'(8) j by simp
    qed
    have H: "pkts s' ! (length (pkts s) + ?c n j) = Some (pk\<lparr>dat := length (dats s) + ?c n j\<rparr>)
            \<and> dats s' ! (length (dats s) + ?c n j) = Some bytes"
      if j: "n \<le> j" "j < B" "int j \<noteq> sender pk" for j
    proof -
      have "n < j" using j(1,3) True by (cases "j = n") auto
      then show ?thesis using s'(9) j c [of j] by (simp add: Suc_le_eq)
    qed
    have A: "length (pkts s') = length (pkts s) + ?c n B"
        "length (dats s') = length (dats s) + ?c n B"
      using s'(4,6) c [OF nB] by simp_all
    show ?thesis
      using run s'(2,3,5,7) A P H by blast
  next
    case False
    let ?s1 = "s\<lparr>ports := (ports s)[n := (ports s ! n)\<lparr>outputqueue :=
                           outputqueue (ports s ! n) @ [length (pkts s)]\<rparr>],
            pkts := pkts s @ [Some (pk\<lparr>dat := length (dats s)\<rparr>)],
            dats := dats s @ [Some bytes]\<rparr>"
    have st: "broadcast_to cfg tsp (int n) s = Inr ?s1"
      using broadcast_to_receiver [OF Suc.prems(1,2) len nl False] .
    have p1: "pkt_at ?s1 tsp = Some pk" "dat_at ?s1 (dat pk) = Some bytes" "B \<le> length (ports ?s1)"
      using Suc.prems by (simp_all add: pkt_at_Some dat_at_Some nth_append)
    have m: "m = B - Suc n" using Suc.hyps(2) by simp
    from Suc.hyps(1) [OF m p1]
    obtain s' where s': "broadcast_loop cfg tsp (int (Suc n)) ?s1 = Inr s'"
      "length (ports s') = length (ports s)"
      "this_iter_cycles_start s' = this_iter_cycles_start s"
      "length (pkts s') = Suc (length (pkts s)) + ?c (Suc n) B"
      "\<forall>a < Suc (length (pkts s)). pkts s' ! a = (pkts s @ [Some (pk\<lparr>dat := length (dats s)\<rparr>)]) ! a"
      "length (dats s') = Suc (length (dats s)) + ?c (Suc n) B"
      "\<forall>a < Suc (length (dats s)). dats s' ! a = (dats s @ [Some bytes]) ! a"
      "\<forall>j < length (ports s). ports s' ! j =
            (if Suc n \<le> j \<and> j < B \<and> int j \<noteq> sender pk
             then (ports ?s1 ! j)\<lparr>outputqueue := outputqueue (ports ?s1 ! j)
                     @ [Suc (length (pkts s)) + ?c (Suc n) j]\<rparr>
             else ports ?s1 ! j)"
      "\<forall>j. Suc n \<le> j \<and> j < B \<and> int j \<noteq> sender pk \<longrightarrow>
            pkts s' ! (Suc (length (pkts s)) + ?c (Suc n) j)
              = Some (pk\<lparr>dat := Suc (length (dats s)) + ?c (Suc n) j\<rparr>)
            \<and> dats s' ! (Suc (length (dats s)) + ?c (Suc n) j) = Some bytes"
      by auto
    have c: "?c n j = Suc (?c (Suc n) j)" if "n < j" for j
      using that False by (simp add: copies_before_step)
    have c0: "?c n n = 0" by simp
    have run: "broadcast_loop cfg tsp (int n) s = Inr s'"
      using broadcast_loop_step [OF lt st] s'(1) by (simp add: add.commute)
    have A: "length (pkts s') = length (pkts s) + ?c n B"
        "length (dats s') = length (dats s) + ?c n B"
      using s'(4,6) c [OF nB] by simp_all
    have Bp: "\<forall>a < length (pkts s). pkts s' ! a = pkts s ! a"
      using s'(5) by (simp add: nth_append)
    have Bd: "\<forall>a < length (dats s). dats s' ! a = dats s ! a"
      using s'(7) by (simp add: nth_append)
    have P: "ports s' ! j =
            (if n \<le> j \<and> j < B \<and> int j \<noteq> sender pk
             then (ports s ! j)\<lparr>outputqueue := outputqueue (ports s ! j)
                     @ [length (pkts s) + ?c n j]\<rparr>
             else ports s ! j)" if j: "j < length (ports s)" for j
    proof (cases "j = n")
      case True
      then show ?thesis using s'(8) j nB False by simp
    next
      case jn: False
      show ?thesis
      proof (cases "n < j")
        case True
        then show ?thesis using s'(8) j jn c [OF True] by (simp add: Suc_le_eq)
      next
        case False
        then show ?thesis using s'(8) j jn by simp
      qed
    qed
    have H: "pkts s' ! (length (pkts s) + ?c n j) = Some (pk\<lparr>dat := length (dats s) + ?c n j\<rparr>)
            \<and> dats s' ! (length (dats s) + ?c n j) = Some bytes"
      if j: "n \<le> j" "j < B" "int j \<noteq> sender pk" for j
    proof (cases "j = n")
      case True
      then show ?thesis using s'(5,7) by simp
    next
      case False
      then have "n < j" using j(1) by simp
      then show ?thesis using s'(9) j c [of j] by (simp add: Suc_le_eq)
    qed
    show ?thesis
      using run s'(2,3) A Bp Bd P H by blast
  qed
qed


lemma free_packet_result:
  assumes "pkt_at s tsp = Some pk" "dat_at s (dat pk) = Some bytes"
  shows "free_packet tsp s = Inr (s\<lparr>dats := (dats s)[dat pk := None], pkts := (pkts s)[tsp := None]\<rparr>)"
  using assms by (simp add: free_packet_def)

text \<open>
  Claim C4. Routing a live packet whose first flit classifies as broadcast, in a switch with
  at least \<open>NUMDOWNLINKS + ADDUPLINK\<close> ports: every port \<open>i\<close> below
  \<open>NUMDOWNLINKS + (NUMUPLINKS > 0 ? 1 : 0)\<close> other than the sender gets exactly one pointer
  appended to its output queue, to a packet allocated by this call (its address is beyond the
  old heap, and the addresses for different ports differ) that has the original's timestamp,
  sender, amtwritten and amtread and a \<open>dat\<close> buffer of its own, also newly allocated, with
  the original's bytes; every other port, so every uplink but the first, is unchanged; the
  original packet and its \<open>dat\<close> are freed, and no other heap object changes.
\<close>

theorem broadcast_fan_out:
  assumes pk: "pkt_at s tsp = Some pk"
    and d: "dat_at s (dat pk) = Some bytes"
    and len: "int (length bytes) = FLIT_SIZE_BYTES * (ETH_MAX_WORDS cfg + ETH_EXTRA_FLITS cfg)"
    and bc: "get_port_from_flit cfg r bytes = Inr BROADCAST_ADJUSTED"
    and np: "NUMDOWNLINKS cfg + ADDUPLINK cfg \<le> int (length (ports s))"
  shows "\<exists>s'. route_packet cfg r tsp s = Inr s'
     \<and> length (ports s') = length (ports s)
     \<and> (\<forall>i < length (ports s). ports s' ! i =
          (if int i < NUMDOWNLINKS cfg + ADDUPLINK cfg \<and> int i \<noteq> sender pk
           then (ports s ! i)\<lparr>outputqueue := outputqueue (ports s ! i)
                  @ [length (pkts s) + copies_before (sender pk) 0 i]\<rparr>
           else ports s ! i))
     \<and> (\<forall>i. int i < NUMDOWNLINKS cfg + ADDUPLINK cfg \<and> int i \<noteq> sender pk \<longrightarrow>
           pkt_at s' (length (pkts s) + copies_before (sender pk) 0 i)
             = Some (pk\<lparr>dat := length (dats s) + copies_before (sender pk) 0 i\<rparr>)
           \<and> dat_at s' (length (dats s) + copies_before (sender pk) 0 i) = Some bytes)
     \<and> (\<forall>i j. i < j \<and> int i \<noteq> sender pk \<longrightarrow>
           copies_before (sender pk) 0 i < copies_before (sender pk) 0 j)
     \<and> pkt_at s' tsp = None \<and> dat_at s' (dat pk) = None
     \<and> (\<forall>a < length (pkts s). a \<noteq> tsp \<longrightarrow> pkt_at s' a = pkt_at s a)
     \<and> (\<forall>a < length (dats s). a \<noteq> dat pk \<longrightarrow> dat_at s' a = dat_at s a)"
proof -
  let ?c = "copies_before (sender pk) 0"
  let ?bound = "NUMDOWNLINKS cfg + ADDUPLINK cfg"
  define B where "B = nat ?bound"
  have tl: "tsp < length (pkts s)" "pkts s ! tsp = Some pk"
    and dl: "dat pk < length (dats s)" "dats s ! dat pk = Some bytes"
    using pk d by (simp_all add: pkt_at_Some dat_at_Some)
  have loop: "\<exists>s1. broadcast_loop cfg tsp 0 s = Inr s1
      \<and> length (ports s1) = length (ports s)
      \<and> length (pkts s1) = length (pkts s) + ?c B
      \<and> (\<forall>a < length (pkts s). pkts s1 ! a = pkts s ! a)
      \<and> length (dats s1) = length (dats s) + ?c B
      \<and> (\<forall>a < length (dats s). dats s1 ! a = dats s ! a)
      \<and> (\<forall>j < length (ports s). ports s1 ! j =
            (if j < B \<and> int j \<noteq> sender pk
             then (ports s ! j)\<lparr>outputqueue := outputqueue (ports s ! j)
                     @ [length (pkts s) + ?c j]\<rparr>
             else ports s ! j))
      \<and> (\<forall>j. j < B \<and> int j \<noteq> sender pk \<longrightarrow>
            pkts s1 ! (length (pkts s) + ?c j) = Some (pk\<lparr>dat := length (dats s) + ?c j\<rparr>)
            \<and> dats s1 ! (length (dats s) + ?c j) = Some bytes)"
  proof (cases "0 < ?bound")
    case True
    then have B: "int B = ?bound" by (simp add: B_def)
    then have "B \<le> length (ports s)" using np by linarith
    from broadcast_loop_props [OF len B pk d this, of 0] show ?thesis by auto
  next
    case False
    then have "B = 0" by (simp add: B_def)
    moreover have "broadcast_loop cfg tsp 0 s = Inr s"
      using False by (rule broadcast_loop_done)
    ultimately show ?thesis by simp
  qed
  then obtain s1 where s1: "broadcast_loop cfg tsp 0 s = Inr s1"
      "length (ports s1) = length (ports s)"
      "length (pkts s1) = length (pkts s) + ?c B"
      "\<forall>a < length (pkts s). pkts s1 ! a = pkts s ! a"
      "length (dats s1) = length (dats s) + ?c B"
      "\<forall>a < length (dats s). dats s1 ! a = dats s ! a"
      "\<forall>j < length (ports s). ports s1 ! j =
            (if j < B \<and> int j \<noteq> sender pk
             then (ports s ! j)\<lparr>outputqueue := outputqueue (ports s ! j)
                     @ [length (pkts s) + ?c j]\<rparr>
             else ports s ! j)"
      "\<forall>j. j < B \<and> int j \<noteq> sender pk \<longrightarrow>
            pkts s1 ! (length (pkts s) + ?c j) = Some (pk\<lparr>dat := length (dats s) + ?c j\<rparr>)
            \<and> dats s1 ! (length (dats s) + ?c j) = Some bytes"
    by blast
  let ?s' = "s1\<lparr>dats := (dats s1)[dat pk := None], pkts := (pkts s1)[tsp := None]\<rparr>"
  have live: "pkt_at s1 tsp = Some pk" "dat_at s1 (dat pk) = Some bytes"
    using tl dl s1(3-6) by (simp_all add: pkt_at_Some dat_at_Some)
  have jB: "int j < ?bound \<longleftrightarrow> j < B" for j
    by (auto simp: B_def)
  have run: "route_packet cfg r tsp s = Inr ?s'"
    using pk d bc s1(1) free_packet_result [OF live]
    by (simp add: route_packet_def)
  have mono: "?c i < ?c j" if "i < j" "int i \<noteq> sender pk" for i j
    using copies_before_mono [of 0 i j "sender pk"] that by simp
  have P: "\<forall>i < length (ports s). ports ?s' ! i =
          (if int i < ?bound \<and> int i \<noteq> sender pk
           then (ports s ! i)\<lparr>outputqueue := outputqueue (ports s ! i) @ [length (pkts s) + ?c i]\<rparr>
           else ports s ! i)"
    using s1(7) by (simp add: jB)
  have H: "pkt_at ?s' (length (pkts s) + ?c i) = Some (pk\<lparr>dat := length (dats s) + ?c i\<rparr>)
           \<and> dat_at ?s' (length (dats s) + ?c i) = Some bytes"
    if i: "int i < ?bound" "int i \<noteq> sender pk" for i
  proof -
    have iB: "i < B" using i(1) by (simp add: jB)
    then have "?c i < ?c B" using mono i(2) by simp
    then have "length (pkts s) + ?c i < length (pkts s1)" "length (dats s) + ?c i < length (dats s1)"
      using s1(3,5) by simp_all
    moreover have "length (pkts s) + ?c i \<noteq> tsp" "length (dats s) + ?c i \<noteq> dat pk"
      using tl(1) dl(1) by simp_all
    ultimately show ?thesis
      using s1(8) iB i(2) by (simp add: pkt_at_Some dat_at_Some)
  qed
  have F: "pkt_at ?s' tsp = None" "dat_at ?s' (dat pk) = None"
    by (simp_all add: pkt_at_def dat_at_def)
  have O: "\<forall>a < length (pkts s). a \<noteq> tsp \<longrightarrow> pkt_at ?s' a = pkt_at s a"
      "\<forall>a < length (dats s). a \<noteq> dat pk \<longrightarrow> dat_at ?s' a = dat_at s a"
    using s1(3-6) by (simp_all add: pkt_at_def dat_at_def)
  show ?thesis
    using run s1(2) P H mono F O by (intro exI [of _ ?s']) simp
qed


lemma multicast_dat_classified:
  "get_port_from_flit four_port_config 0 multicast_dat = Inr BROADCAST_ADJUSTED"
proof -
  have "memread multicast_dat 0 8 = Some [0, 0, 1, 0, 0, 0, 0, 0]"
    by (simp add: memread_def multicast_dat_def)
  moreover have "word_rcat (rev [0, 0, 1, 0, 0, 0, 0, 0 :: byte]) = (0x10000 :: u64)"
    by code_simp
  moreover have "(ucast (drop_bit 16 (0x10000 :: u64) AND 0x1) :: u16) \<noteq> 0"
    by code_simp
  moreover have "32 \<le> length multicast_dat" by (simp add: multicast_dat_def)
  note printed_items_Some [OF this]
  ultimately show ?thesis
    by (simp add: get_port_from_flit_def load64_def Let_def)
qed

theorem broadcast_fan_out_witness:
  "\<exists>s'. route_packet four_port_config 0 0 one_broadcast_packet = Inr s'
     \<and> length (ports s') = 4
     \<and> ports s' ! 0 = idle_port
     \<and> ports s' ! 1 = idle_port\<lparr>outputqueue := [1]\<rparr>
     \<and> ports s' ! 2 = idle_port\<lparr>outputqueue := [2]\<rparr>
     \<and> ports s' ! 3 = idle_port
     \<and> pkt_at s' 1 = Some \<lparr>timestamp = 15, dat = 1, amtwritten = 1, amtread = 0, sender = 0\<rparr>
     \<and> pkt_at s' 2 = Some \<lparr>timestamp = 15, dat = 2, amtwritten = 1, amtread = 0, sender = 0\<rparr>
     \<and> dat_at s' 1 = Some multicast_dat \<and> dat_at s' 2 = Some multicast_dat
     \<and> pkt_at s' 0 = None \<and> dat_at s' 0 = None"
proof -
  let ?pk = "\<lparr>timestamp = 15, dat = 0, amtwritten = 1, amtread = 0, sender = 0\<rparr>"
  have pk: "pkt_at one_broadcast_packet 0 = Some ?pk"
    by (simp add: pkt_at_def one_broadcast_packet_def)
  have d: "dat_at one_broadcast_packet (dat ?pk) = Some multicast_dat"
    by (simp add: dat_at_def one_broadcast_packet_def)
  have len: "int (length multicast_dat)
      = FLIT_SIZE_BYTES * (ETH_MAX_WORDS four_port_config + ETH_EXTRA_FLITS four_port_config)"
    by (simp add: multicast_dat_def four_port_config_def codec_consts)
  have np: "NUMDOWNLINKS four_port_config + ADDUPLINK four_port_config
      \<le> int (length (ports one_broadcast_packet))"
    by (simp add: four_port_config_def ADDUPLINK_def one_broadcast_packet_def)
  have c: "copies_before 0 0 1 = 0" "copies_before 0 0 2 = 1" "copies_before 0 0 (Suc 0) = 0"
    by (simp_all add: copies_before_def upt_rec)
  have b: "NUMDOWNLINKS four_port_config + ADDUPLINK four_port_config = 3"
    by (simp add: four_port_config_def ADDUPLINK_def)
  from broadcast_fan_out [OF pk d len multicast_dat_classified np]
  obtain s' where s': "route_packet four_port_config 0 0 one_broadcast_packet = Inr s'"
    "length (ports s') = length (ports one_broadcast_packet)"
    "\<forall>i < length (ports one_broadcast_packet). ports s' ! i =
          (if int i < 3 \<and> int i \<noteq> 0
           then (ports one_broadcast_packet ! i)\<lparr>outputqueue :=
                  outputqueue (ports one_broadcast_packet ! i)
                  @ [length (pkts one_broadcast_packet) + copies_before 0 0 i]\<rparr>
           else ports one_broadcast_packet ! i)"
    "\<forall>i. int i < 3 \<and> int i \<noteq> 0 \<longrightarrow>
           pkt_at s' (length (pkts one_broadcast_packet) + copies_before 0 0 i)
             = Some (?pk\<lparr>dat := length (dats one_broadcast_packet) + copies_before 0 0 i\<rparr>)
           \<and> dat_at s' (length (dats one_broadcast_packet) + copies_before 0 0 i)
               = Some multicast_dat"
    "pkt_at s' 0 = None" "dat_at s' 0 = None"
    unfolding b by auto
  have l: "length (ports one_broadcast_packet) = 4" "length (pkts one_broadcast_packet) = 1"
    "length (dats one_broadcast_packet) = 1"
    "ports one_broadcast_packet ! 0 = idle_port" "ports one_broadcast_packet ! 1 = idle_port"
    "ports one_broadcast_packet ! 2 = idle_port" "ports one_broadcast_packet ! 3 = idle_port"
    "ports one_broadcast_packet ! Suc 0 = idle_port"
    by (simp_all add: one_broadcast_packet_def)
  have q: "outputqueue idle_port = []" by (simp add: idle_port_def)
  have "ports s' ! 0 = idle_port" "ports s' ! 1 = idle_port\<lparr>outputqueue := [1]\<rparr>"
    "ports s' ! 2 = idle_port\<lparr>outputqueue := [2]\<rparr>" "ports s' ! 3 = idle_port"
    using s'(3) [rule_format, of 0] s'(3) [rule_format, of 1] s'(3) [rule_format, of 2]
      s'(3) [rule_format, of 3]
    by (simp_all add: l c q)
  moreover have "pkt_at s' 1 = Some (?pk\<lparr>dat := 1\<rparr>) \<and> dat_at s' 1 = Some multicast_dat"
  proof -
    have e: "length (pkts one_broadcast_packet) + copies_before 0 0 1 = 1"
      "length (dats one_broadcast_packet) + copies_before 0 0 1 = 1"
      by (simp_all add: l c)
    have pre: "int 1 < 3 \<and> int 1 \<noteq> 0" by simp
    show ?thesis using s'(4) [rule_format, OF pre] unfolding e .
  qed
  moreover have "pkt_at s' 2 = Some (?pk\<lparr>dat := 2\<rparr>) \<and> dat_at s' 2 = Some multicast_dat"
  proof -
    have e: "length (pkts one_broadcast_packet) + copies_before 0 0 2 = 2"
      "length (dats one_broadcast_packet) + copies_before 0 0 2 = 2"
      by (simp_all add: l c)
    have pre: "int 2 < 3 \<and> int 2 \<noteq> 0" by simp
    show ?thesis using s'(4) [rule_format, OF pre] unfolding e .
  qed
  ultimately show ?thesis
    using s'(1,2,5,6) by (intro exI [of _ s']) (simp add: l)
qed

section \<open>Properties of the reassembly\<close>

lemma sdiv_smod_nonneg:
  "0 \<le> a \<Longrightarrow> 0 < b \<Longrightarrow> a sdiv b = a div (b :: int)"
  "0 \<le> a \<Longrightarrow> 0 < b \<Longrightarrow> a smod b = a mod (b :: int)"
  by (simp_all add: signed_divide_int_def signed_modulo_int_def sgn_if)

lemma bigtoken_bound:
  fixes q n :: int
  assumes "q < n div 64"
  shows "64 * q + 64 \<le> n"
proof -
  have "64 * (q + 1) \<le> 64 * (n div 64)" using assms by simp
  also have "\<dots> \<le> n" by simp
  finally show ?thesis by (simp add: algebra_simps)
qed

lemma flit_bounds:
  fixes q r n :: int
  assumes "64 * q + 64 \<le> n" "0 \<le> r" "r < 7" "0 \<le> q"
  shows "0 \<le> q * 64 + 8 * (r + 1)" "q * 64 + 8 * (r + 1) + 8 \<le> n"
  using assms by auto

lemma token_in_window:
  assumes w: "window_ok cfg buf" and t: "0 \<le> t" "t < NUM_TOKENS cfg"
  shows "BIGTOKEN_SIZE_BYTES * (t div 7) + BIGTOKEN_SIZE_BYTES \<le> int (length buf)"
proof -
  have "t < 7 * (int (length buf) div 64)"
    using w t by (simp add: window_ok_def TOKENS_PER_BIGTOKEN_7 codec_consts)
  then have "t div 7 < int (length buf) div 64" by linarith
  then have "64 * (t div 7) + 64 \<le> int (length buf)" by (rule bigtoken_bound)
  then show ?thesis by (simp add: codec_consts)
qed

lemma token_access:
  assumes w: "window_ok cfg buf" and t: "0 \<le> t" "t < NUM_TOKENS cfg"
  shows "\<exists>v. is_valid_flit buf t = Some v" "\<exists>l. is_last_flit buf t = Some l"
    "\<exists>fl. memread buf (get_flit t) FLIT_SIZE_BYTES = Some fl \<and> length fl = 8"
proof -
  have b: "64 * (t div 7) + 64 \<le> int (length buf)"
    using token_in_window [OF w t] by (simp add: codec_consts)
  have m: "0 \<le> t mod 7" "t mod 7 < 7" "0 \<le> t div 7" using t by simp_all
  have d: "t sdiv 7 = t div 7" "t smod 7 = t mod 7"
    using t by (simp_all add: sdiv_smod_nonneg)
  have o1: "0 \<le> (43 + t mod 7 * 3) div 8" "(43 + t mod 7 * 3) div 8 < 8"
    and o2: "0 \<le> (45 + t mod 7 * 3) div 8" "(45 + t mod 7 * 3) div 8 < 8"
    using m by linarith+
  have s1: "(43 + t mod 7 * 3) sdiv 8 = (43 + t mod 7 * 3) div 8"
    "(45 + t mod 7 * 3) sdiv 8 = (45 + t mod 7 * 3) div 8"
    using m by (simp_all add: sdiv_smod_nonneg)
  show "\<exists>v. is_valid_flit buf t = Some v"
    using b m o1 by (simp add: is_valid_flit_def TOKENS_PER_BIGTOKEN_7 d Let_def peek_def
        FLIT_SIZE_BITS_def BIGTOKEN_SIZE_BYTES_def BIGTOKEN_SIZE_BITS_def s1)
  show "\<exists>l. is_last_flit buf t = Some l"
    using b m o2 by (simp add: is_last_flit_def TOKENS_PER_BIGTOKEN_7 d Let_def peek_def
        FLIT_SIZE_BITS_def BIGTOKEN_SIZE_BYTES_def BIGTOKEN_SIZE_BITS_def s1)
  have g: "get_flit t = t div 7 * 64 + 8 * (t mod 7 + 1)"
    by (simp add: get_flit_def TOKENS_PER_BIGTOKEN_7 d Let_def FLIT_SIZE_BYTES_def
        FLIT_SIZE_BITS_def BIGTOKEN_SIZE_BYTES_def BIGTOKEN_SIZE_BITS_def)
  have r: "0 \<le> get_flit t" "get_flit t + 8 \<le> int (length buf)"
    unfolding g using flit_bounds [OF b m(1,2,3)] by simp_all
  then show "\<exists>fl. memread buf (get_flit t) FLIT_SIZE_BYTES = Some fl \<and> length fl = 8"
    by (simp add: memread_def FLIT_SIZE_BYTES_def FLIT_SIZE_BITS_def)
qed


lemma memcpy_flit:
  assumes "length fl = 8" "0 \<le> off"
  shows "memcpy d (off * FLIT_SIZE_BYTES) fl FLIT_SIZE_BYTES =
     (if off * 8 + 8 \<le> int (length d)
      then Some (take (nat (off * 8)) d @ fl @ drop (nat (off * 8 + 8)) d) else None)"
  using assms by (simp add: memcpy_def FLIT_SIZE_BYTES_def FLIT_SIZE_BITS_def)

lemma memcpy_flit_length:
  assumes "length fl = 8" "0 \<le> off" "off * 8 + 8 \<le> int (length d)"
  shows "length (take (nat (off * 8)) d @ fl @ drop (nat (off * 8 + 8)) d) = length d"
  using assms by (simp add: min_def) linarith

lemma port_ref_Some: "port_ref s i = Some p \<longleftrightarrow> 0 \<le> i \<and> nat i < length (ports s) \<and> ports s ! nat i = p"
  by (auto simp: port_ref_def)

lemma port_ref_set_port:
  "port_ref s i = Some p \<Longrightarrow> port_ref (set_port i p' s) i = Some p'"
  by (simp add: port_ref_Some set_port_def)

lemma reassemble_flit_invalid:
  assumes "port_ref s port = Some p" "is_valid_flit (current_input_buf p) t = Some False"
  shows "reassemble_flit cfg port t s = Inr s"
  using assms by (simp add: reassemble_flit_def)

lemma amt_in_progress_None:
  "port_ref s port = Some p \<Longrightarrow> input_in_progress p = None \<Longrightarrow> amt_in_progress s port = 0"
  by (simp add: amt_in_progress_def)

lemma amt_in_progress_Some:
  "port_ref s port = Some p \<Longrightarrow> input_in_progress p = Some a \<Longrightarrow> pkt_at s a = Some pk \<Longrightarrow>
   amt_in_progress s port = amtwritten pk"
  by (simp add: amt_in_progress_def)

lemma reassemble_flit_fresh:
  assumes p: "port_ref s port = Some p"
    and v: "is_valid_flit (current_input_buf p) t = Some True"
    and fl: "memread (current_input_buf p) (get_flit t) FLIT_SIZE_BYTES = Some fl" "length fl = 8"
    and l: "is_last_flit (current_input_buf p) t = Some l"
    and n: "input_in_progress p = None"
  shows "0 < ETH_MAX_WORDS cfg + ETH_EXTRA_FLITS cfg \<Longrightarrow>
      \<exists>s'. reassemble_flit cfg port t s = Inr s' \<and> port_ready cfg s' port
        \<and> (\<exists>p'. port_ref s' port = Some p' \<and> current_input_buf p' = current_input_buf p)
        \<and> amt_in_progress s' port = (if l then 0 else 1)"
    and "\<not> 0 < ETH_MAX_WORDS cfg + ETH_EXTRA_FLITS cfg \<Longrightarrow>
      reassemble_flit cfg port t s = Inl PacketOverrun"
proof -
  let ?cap = "ETH_MAX_WORDS cfg + ETH_EXTRA_FLITS cfg"
  let ?zeros = "replicate (nat (FLIT_SIZE_BYTES * ?cap)) (0 :: byte)"
  let ?npk = "\<lparr>timestamp = this_iter_cycles_start s + word_of_int t + word_of_int (SWITCHLATENCY cfg),
               dat = length (dats s), amtwritten = 0, amtread = 0, sender = port\<rparr>"
  let ?s1 = "s\<lparr>dats := dats s @ [Some ?zeros], pkts := pkts s @ [Some ?npk]\<rparr>"
  have a1: "pkt_at ?s1 (length (pkts s)) = Some ?npk"
    "dat_at ?s1 (length (dats s)) = Some ?zeros"
    by (simp_all add: pkt_at_def dat_at_def)
  have mc: "memcpy ?zeros (0 * FLIT_SIZE_BYTES) fl FLIT_SIZE_BYTES =
     (if 0 * 8 + 8 \<le> int (length ?zeros)
      then Some (take (nat (0 * 8)) ?zeros @ fl @ drop (nat (0 * 8 + 8)) ?zeros) else None)"
    by (rule memcpy_flit) (simp_all add: fl)
  {
    assume "\<not> 0 < ?cap"
    then have "\<not> (0 * 8 + 8 \<le> int (length ?zeros))"
      by (simp add: FLIT_SIZE_BYTES_def FLIT_SIZE_BITS_def)
    then have "memcpy ?zeros 0 fl FLIT_SIZE_BYTES = None"
      using mc by simp
    then show "reassemble_flit cfg port t s = Inl PacketOverrun"
      using p v fl(1) l n a1
      by (simp add: reassemble_flit_def new_dat_def new_pkt_def Let_def)
  }
  {
    assume c: "0 < ?cap"
    then have zl: "int (length ?zeros) = FLIT_SIZE_BYTES * ?cap" "8 \<le> length ?zeros"
      "8 \<le> int (length ?zeros)"
      by (simp_all add: FLIT_SIZE_BYTES_def FLIT_SIZE_BITS_def)
    let ?bytes = "fl @ drop 8 ?zeros"
    have bl: "length ?bytes = length ?zeros" using zl(2) fl(2) by simp
    let ?s2 = "?s1\<lparr>dats := (dats ?s1)[length (dats s) := Some ?bytes],
                     pkts := (pkts ?s1)[length (pkts s) := Some (?npk\<lparr>amtwritten := 0 + 1\<rparr>)]\<rparr>"
    let ?s' = "if l
               then set_port port (p\<lparr>inputqueue := inputqueue p @ [length (pkts s)],
                                     input_in_progress := None\<rparr>) ?s2
               else set_port port (p\<lparr>input_in_progress := Some (length (pkts s))\<rparr>) ?s2"
    have mcs: "memcpy ?zeros 0 fl FLIT_SIZE_BYTES = Some ?bytes"
      using zl(3) fl(2) by (simp add: memcpy_def FLIT_SIZE_BYTES_def FLIT_SIZE_BITS_def)
    have run: "reassemble_flit cfg port t s = Inr ?s'"
      using p v fl(1) l n a1 mcs
      by (simp add: reassemble_flit_def new_dat_def new_pkt_def Let_def)
    have p2: "port_ref ?s2 port = Some p" using p by (simp add: port_ref_Some)
    have pr: "port_ref ?s' port
        = Some (if l then p\<lparr>inputqueue := inputqueue p @ [length (pkts s)], input_in_progress := None\<rparr>
                else p\<lparr>input_in_progress := Some (length (pkts s))\<rparr>)"
      using port_ref_set_port [OF p2] by simp
    have h: "pkt_at ?s' (length (pkts s)) = Some (?npk\<lparr>amtwritten := 1\<rparr>)"
      "dat_at ?s' (length (dats s)) = Some ?bytes"
      by (simp_all add: pkt_at_def dat_at_def set_port_def)
    have ready: "port_ready cfg ?s' port"
      unfolding port_ready_def pr using h bl zl(1) by (cases l) simp_all
    have amt: "amt_in_progress ?s' port = (if l then 0 else 1)"
      unfolding amt_in_progress_def pr using h by (cases l) simp_all
    have "\<exists>p'. port_ref ?s' port = Some p' \<and> current_input_buf p' = current_input_buf p"
      unfolding pr by simp
    with run ready amt
    show "\<exists>s'. reassemble_flit cfg port t s = Inr s' \<and> port_ready cfg s' port
        \<and> (\<exists>p'. port_ref s' port = Some p' \<and> current_input_buf p' = current_input_buf p)
        \<and> amt_in_progress s' port = (if l then 0 else 1)"
      by blast
  }
qed


lemma reassemble_flit_continue:
  assumes p: "port_ref s port = Some p"
    and v: "is_valid_flit (current_input_buf p) t = Some True"
    and fl: "memread (current_input_buf p) (get_flit t) FLIT_SIZE_BYTES = Some fl" "length fl = 8"
    and l: "is_last_flit (current_input_buf p) t = Some l"
    and n: "input_in_progress p = Some a"
    and ready: "port_ready cfg s port"
  shows "amt_in_progress s port < ETH_MAX_WORDS cfg + ETH_EXTRA_FLITS cfg \<Longrightarrow>
      \<exists>s'. reassemble_flit cfg port t s = Inr s' \<and> port_ready cfg s' port
        \<and> (\<exists>p'. port_ref s' port = Some p' \<and> current_input_buf p' = current_input_buf p)
        \<and> amt_in_progress s' port = (if l then 0 else amt_in_progress s port + 1)"
    and "\<not> amt_in_progress s port < ETH_MAX_WORDS cfg + ETH_EXTRA_FLITS cfg \<Longrightarrow>
      reassemble_flit cfg port t s = Inl PacketOverrun"
proof -
  let ?cap = "ETH_MAX_WORDS cfg + ETH_EXTRA_FLITS cfg"
  from ready p n obtain pk d where pk: "pkt_at s a = Some pk"
    and d: "dat_at s (dat pk) = Some d"
    and a0: "0 \<le> amtwritten pk"
    and dl: "int (length d) = FLIT_SIZE_BYTES * ?cap"
    by (auto simp: port_ready_def split: option.splits)
  have amt: "amt_in_progress s port = amtwritten pk"
    using p n pk by (rule amt_in_progress_Some)
  have dl8: "int (length d) = 8 * ?cap"
    using dl by (simp add: FLIT_SIZE_BYTES_def FLIT_SIZE_BITS_def)
  note mc = memcpy_flit [OF fl(2) a0, of d]
  {
    assume "\<not> amt_in_progress s port < ?cap"
    then have "\<not> (amtwritten pk * 8 + 8 \<le> int (length d))"
      unfolding amt dl8 by auto
    then have "memcpy d (amtwritten pk * FLIT_SIZE_BYTES) fl FLIT_SIZE_BYTES = None"
      using mc by simp
    then show "reassemble_flit cfg port t s = Inl PacketOverrun"
      using p v fl(1) l n pk d
      by (simp add: reassemble_flit_def Let_def)
  }
  {
    assume "amt_in_progress s port < ?cap"
    then have room: "amtwritten pk * 8 + 8 \<le> int (length d)"
      unfolding amt dl8 by auto
    let ?bytes = "take (nat (amtwritten pk * 8)) d @ fl @ drop (nat (amtwritten pk * 8 + 8)) d"
    have bl: "length ?bytes = length d"
      using memcpy_flit_length [OF fl(2) a0 room] .
    have mcs: "memcpy d (amtwritten pk * FLIT_SIZE_BYTES) fl FLIT_SIZE_BYTES = Some ?bytes"
      using mc room by simp
    let ?s2 = "s\<lparr>dats := (dats s)[dat pk := Some ?bytes],
                  pkts := (pkts s)[a := Some (pk\<lparr>amtwritten := amtwritten pk + 1\<rparr>)]\<rparr>"
    let ?s' = "if l
               then set_port port (p\<lparr>inputqueue := inputqueue p @ [a],
                                     input_in_progress := None\<rparr>) ?s2
               else set_port port (p\<lparr>input_in_progress := Some a\<rparr>) ?s2"
    have run: "reassemble_flit cfg port t s = Inr ?s'"
      using p v fl(1) l n pk d mcs
      by (simp add: reassemble_flit_def Let_def)
    have p2: "port_ref ?s2 port = Some p" using p by (simp add: port_ref_Some)
    have pr: "port_ref ?s' port
        = Some (if l then p\<lparr>inputqueue := inputqueue p @ [a], input_in_progress := None\<rparr>
                else p\<lparr>input_in_progress := Some a\<rparr>)"
      using port_ref_set_port [OF p2] by simp
    have h: "pkt_at ?s' a = Some (pk\<lparr>amtwritten := amtwritten pk + 1\<rparr>)"
      "dat_at ?s' (dat pk) = Some ?bytes"
      using pk d by (simp_all add: pkt_at_def dat_at_def set_port_def split: if_splits)
    have ready': "port_ready cfg ?s' port"
      unfolding port_ready_def pr using h bl dl a0 by (cases l) simp_all
    have "amt_in_progress ?s' port = (if l then 0 else amtwritten pk + 1)"
      unfolding amt_in_progress_def pr using h by (cases l) simp_all
    then have amt': "amt_in_progress ?s' port = (if l then 0 else amt_in_progress s port + 1)"
      by (simp only: amt)
    have "\<exists>p'. port_ref ?s' port = Some p' \<and> current_input_buf p' = current_input_buf p"
      unfolding pr by simp
    with run ready' amt'
    show "\<exists>s'. reassemble_flit cfg port t s = Inr s' \<and> port_ready cfg s' port
        \<and> (\<exists>p'. port_ref s' port = Some p' \<and> current_input_buf p' = current_input_buf p)
        \<and> amt_in_progress s' port = (if l then 0 else amt_in_progress s port + 1)"
      by blast
  }
qed

lemma reassemble_flit_step:
  assumes p: "port_ref s port = Some p"
    and w: "window_ok cfg (current_input_buf p)"
    and t: "0 \<le> t" "t < NUM_TOKENS cfg"
    and ready: "port_ready cfg s port"
  shows "is_valid_flit (current_input_buf p) t \<noteq> Some True \<Longrightarrow>
      reassemble_flit cfg port t s = Inr s"
    and "is_valid_flit (current_input_buf p) t = Some True \<Longrightarrow>
      amt_in_progress s port < ETH_MAX_WORDS cfg + ETH_EXTRA_FLITS cfg \<Longrightarrow>
      \<exists>s'. reassemble_flit cfg port t s = Inr s' \<and> port_ready cfg s' port
        \<and> (\<exists>p'. port_ref s' port = Some p' \<and> current_input_buf p' = current_input_buf p)
        \<and> amt_in_progress s' port
            = (if is_last_flit (current_input_buf p) t = Some True then 0
               else amt_in_progress s port + 1)"
    and "is_valid_flit (current_input_buf p) t = Some True \<Longrightarrow>
      \<not> amt_in_progress s port < ETH_MAX_WORDS cfg + ETH_EXTRA_FLITS cfg \<Longrightarrow>
      reassemble_flit cfg port t s = Inl PacketOverrun"
proof -
  from token_access [OF w t] obtain v l fl where
    v: "is_valid_flit (current_input_buf p) t = Some v"
    and l: "is_last_flit (current_input_buf p) t = Some l"
    and fl: "memread (current_input_buf p) (get_flit t) FLIT_SIZE_BYTES = Some fl" "length fl = 8"
    by blast
  have le: "(is_last_flit (current_input_buf p) t = Some True) = l" using l by simp
  {
    assume "is_valid_flit (current_input_buf p) t \<noteq> Some True"
    then have "is_valid_flit (current_input_buf p) t = Some False" using v by simp
    then show "reassemble_flit cfg port t s = Inr s"
      using p by (rule reassemble_flit_invalid [rotated])
  }
  {
    assume vt: "is_valid_flit (current_input_buf p) t = Some True"
      and room: "amt_in_progress s port < ETH_MAX_WORDS cfg + ETH_EXTRA_FLITS cfg"
    show "\<exists>s'. reassemble_flit cfg port t s = Inr s' \<and> port_ready cfg s' port
        \<and> (\<exists>p'. port_ref s' port = Some p' \<and> current_input_buf p' = current_input_buf p)
        \<and> amt_in_progress s' port
            = (if is_last_flit (current_input_buf p) t = Some True then 0
               else amt_in_progress s port + 1)"
    proof (cases "input_in_progress p")
      case None
      have z: "amt_in_progress s port = 0" using p None by (rule amt_in_progress_None)
      from reassemble_flit_fresh(1) [OF p vt fl l None, of cfg] room
      show ?thesis unfolding le z by (cases l) simp_all
    next
      case (Some a)
      from reassemble_flit_continue(1) [OF p vt fl l Some ready room]
      show ?thesis unfolding le .
    qed
  }
  {
    assume vt: "is_valid_flit (current_input_buf p) t = Some True"
      and full: "\<not> amt_in_progress s port < ETH_MAX_WORDS cfg + ETH_EXTRA_FLITS cfg"
    show "reassemble_flit cfg port t s = Inl PacketOverrun"
    proof (cases "input_in_progress p")
      case None
      have z: "amt_in_progress s port = 0" using p None by (rule amt_in_progress_None)
      from reassemble_flit_fresh(2) [OF p vt fl l None, of cfg] full
      show ?thesis unfolding z by simp
    next
      case (Some a)
      from reassemble_flit_continue(2) [OF p vt fl l Some ready full]
      show ?thesis .
    qed
  }
qed


lemma reassemble_tokens_done:
  "\<not> t < NUM_TOKENS cfg \<Longrightarrow> reassemble_tokens cfg port t s = Inr s"
  by (simp add: reassemble_tokens.simps)

lemma reassemble_tokens_step:
  "t < NUM_TOKENS cfg \<Longrightarrow> reassemble_flit cfg port t s = Inr s' \<Longrightarrow>
   reassemble_tokens cfg port t s = reassemble_tokens cfg port (t + 1) s'"
  by (subst reassemble_tokens.simps) simp

lemma reassemble_tokens_fault:
  "t < NUM_TOKENS cfg \<Longrightarrow> reassemble_flit cfg port t s = Inl e \<Longrightarrow>
   reassemble_tokens cfg port t s = Inl e"
  by (subst reassemble_tokens.simps) simp

lemma reassemble_tokens_fits:
  assumes w: "window_ok cfg buf"
  shows "port_ref s port = Some p \<Longrightarrow> current_input_buf p = buf \<Longrightarrow> port_ready cfg s port \<Longrightarrow>
     0 \<le> t \<Longrightarrow>
     (fits cfg buf t (amt_in_progress s port) \<longrightarrow> (\<exists>s'. reassemble_tokens cfg port t s = Inr s'))
     \<and> (\<not> fits cfg buf t (amt_in_progress s port)
          \<longrightarrow> reassemble_tokens cfg port t s = Inl PacketOverrun)"
proof (induction "nat (NUM_TOKENS cfg - t)" arbitrary: t s p)
  case 0
  then have d: "\<not> t < NUM_TOKENS cfg" by simp
  then show ?case
    by (simp add: reassemble_tokens_done fits.simps [of cfg buf t])
next
  case (Suc m)
  then have lt: "t < NUM_TOKENS cfg" by simp
  have m: "m = nat (NUM_TOKENS cfg - (t + 1))" using Suc.hyps(2) by simp
  have t1: "0 \<le> t + 1" using Suc.prems(4) by simp
  have w': "window_ok cfg (current_input_buf p)" using w Suc.prems(2) by simp
  note step = reassemble_flit_step [OF Suc.prems(1) w' Suc.prems(4) lt Suc.prems(3)]
  let ?n = "amt_in_progress s port"
  show ?case
  proof (cases "is_valid_flit buf t = Some True")
    case False
    then have st: "reassemble_flit cfg port t s = Inr s"
      using step(1) Suc.prems(2) by simp
    have f: "fits cfg buf t ?n = fits cfg buf (t + 1) ?n"
      using lt False by (subst fits.simps) simp
    show ?thesis
      unfolding f reassemble_tokens_step [OF lt st]
      using Suc.hyps(1) [OF m Suc.prems(1,2,3) t1] .
  next
    case True
    then have vt: "is_valid_flit (current_input_buf p) t = Some True"
      using Suc.prems(2) by simp
    show ?thesis
    proof (cases "?n < ETH_MAX_WORDS cfg + ETH_EXTRA_FLITS cfg")
      case room: True
      from step(2) [OF vt room] obtain s' p' where
        st: "reassemble_flit cfg port t s = Inr s'"
        and r': "port_ready cfg s' port"
        and p': "port_ref s' port = Some p'" "current_input_buf p' = current_input_buf p"
        and a': "amt_in_progress s' port
            = (if is_last_flit (current_input_buf p) t = Some True then 0 else ?n + 1)"
        by blast
      have b': "current_input_buf p' = buf" using p'(2) Suc.prems(2) by simp
      have f: "fits cfg buf t ?n = fits cfg buf (t + 1) (amt_in_progress s' port)"
        using lt True room a' Suc.prems(2) by (subst fits.simps) simp
      show ?thesis
        unfolding f reassemble_tokens_step [OF lt st]
        using Suc.hyps(1) [OF m p'(1) b' r' t1] .
    next
      case full: False
      have st: "reassemble_flit cfg port t s = Inl PacketOverrun"
        using step(3) [OF vt full] .
      have f: "\<not> fits cfg buf t ?n"
        using lt True full by (subst fits.simps) simp
      show ?thesis
        using f reassemble_tokens_fault [OF lt st] by simp
    qed
  qed
qed

lemma port_ready_port:
  assumes "port_ready cfg s port"
  shows "port_ref s port = Some (ports s ! nat port)"
  using assms by (auto simp: port_ready_def port_ref_def split: option.splits if_splits)

text \<open>
  Claim C10, amended. When phase 1 starts on a port whose packet in progress, if any, is a
  live packet with a buffer of \<open>FLIT_SIZE_BYTES * (ETH_MAX_WORDS + ETH_EXTRA_FLITS)\<close> bytes,
  on a window that holds all \<open>NUM_TOKENS\<close> tokens: if no packet of the window, as the
  code's valid and last tests delimit them, has more than \<open>ETH_MAX_WORDS + ETH_EXTRA_FLITS\<close>
  flits, every copy lies within its buffer and the loop completes; otherwise the loop
  reaches a copy at index \<open>amtwritten \<ge> ETH_MAX_WORDS + ETH_EXTRA_FLITS\<close>, outside the buffer.
\<close>

theorem reassembly_within_buffer:
  assumes "port_ready cfg s port"
    and "window_ok cfg (current_input_buf (ports s ! nat port))"
  shows "(fits cfg (current_input_buf (ports s ! nat port)) 0 (amt_in_progress s port)
            \<longrightarrow> (\<exists>s'. reassemble_tokens cfg port 0 s = Inr s'))
       \<and> (\<not> fits cfg (current_input_buf (ports s ! nat port)) 0 (amt_in_progress s port)
            \<longrightarrow> reassemble_tokens cfg port 0 s = Inl PacketOverrun)"
  using reassemble_tokens_fits [OF assms(2) port_ready_port [OF assms(1)] refl assms(1), of 0]
  by simp


lemma nth_concat_replicate:
  "j < m \<Longrightarrow> i < length bt \<Longrightarrow> concat (replicate m bt) ! (j * length bt + i) = bt ! i"
proof (induction j arbitrary: m)
  case 0
  then obtain m' where "m = Suc m'" by (cases m) auto
  with 0 show ?case by (simp add: nth_append)
next
  case (Suc j)
  then obtain m' where m: "m = Suc m'" by (cases m) auto
  with Suc.prems have "j < m'" by simp
  from Suc.IH [OF this Suc.prems(2)] show ?case
    by (simp add: m nth_append add.assoc)
qed

lemma peek_long_window:
  assumes j: "j < 201" and i: "i < 64"
  shows "peek long_packet_window (int j * 64 + int i) = Some (bigtoken_byte5 0x08 ! i)"
proof -
  have l: "length long_packet_window = 201 * 64"
    by (simp add: long_packet_window_def length_concat bigtoken_byte5_nth sum_list_replicate)
  have "long_packet_window ! (j * length (bigtoken_byte5 0x08) + i) = bigtoken_byte5 0x08 ! i"
    unfolding long_packet_window_def using j i
    by (intro nth_concat_replicate) (simp_all add: bigtoken_byte5_nth)
  moreover have "nat (int j * 64 + int i) = j * 64 + i"
    by (simp add: nat_add_distrib nat_mult_distrib)
  moreover have "int j * 64 + int i < int (length long_packet_window)"
    unfolding l using j i by simp
  ultimately show ?thesis
    by (simp add: peek_def bigtoken_byte5_nth)
qed

lemma bigtoken_byte5_bytes:
  "bigtoken_byte5 x ! 5 = x" "bigtoken_byte5 x ! 6 = 0" "bigtoken_byte5 x ! 7 = 0"
  by (simp_all add: bigtoken_byte5_def nth_append)

lemma codec_values:
  "FLIT_SIZE_BITS = 64" "FLIT_SIZE_BYTES = 8" "BIGTOKEN_SIZE_BYTES = 64"
  by (simp_all add: codec_consts)

lemma meta_offsets:
  "(43 :: int) sdiv 8 = 5" "(43 :: int) smod 8 = 3" "(45 :: int) sdiv 8 = 5" "(45 :: int) smod 8 = 5"
  "(46 :: int) sdiv 8 = 5" "(46 :: int) smod 8 = 6" "(49 :: int) sdiv 8 = 6" "(49 :: int) smod 8 = 1"
  "(52 :: int) sdiv 8 = 6" "(52 :: int) smod 8 = 4" "(55 :: int) sdiv 8 = 6" "(55 :: int) smod 8 = 7"
  "(58 :: int) sdiv 8 = 7" "(58 :: int) smod 8 = 2" "(61 :: int) sdiv 8 = 7" "(61 :: int) smod 8 = 5"
  by (simp_all add: signed_divide_int_def signed_modulo_int_def)

lemma long_window_tokens:
  assumes j: "j < 201"
  shows "is_valid_flit long_packet_window (7 * int j) = Some True"
    and "is_last_flit long_packet_window (7 * int j) = Some False"
    and "0 < k \<Longrightarrow> k < 7 \<Longrightarrow> is_valid_flit long_packet_window (7 * int j + k) = Some False"
proof -
  have d: "(7 * int j + k) sdiv 7 = int j" "(7 * int j + k) smod 7 = k" if "0 \<le> k" "k < 7" for k
    using that by (simp_all add: sdiv_smod_nonneg)
  note pk = peek_long_window [OF j]
  have p5: "peek long_packet_window (int j * 64 + 5) = Some 0x08"
    using pk [of 5] by (simp add: bigtoken_byte5_bytes)
  have p6: "peek long_packet_window (int j * 64 + 6) = Some 0"
    using pk [of 6] by (simp add: bigtoken_byte5_bytes)
  have p7: "peek long_packet_window (int j * 64 + 7) = Some 0"
    using pk [of 7] by (simp add: bigtoken_byte5_bytes)
  show "is_valid_flit long_packet_window (7 * int j) = Some True"
    using d [of 0] p5
    by (simp add: is_valid_flit_def TOKENS_PER_BIGTOKEN_7 Let_def codec_values meta_offsets)
  show "is_last_flit long_packet_window (7 * int j) = Some False"
    using d [of 0] p5
    by (simp add: is_last_flit_def TOKENS_PER_BIGTOKEN_7 Let_def codec_values meta_offsets)
  assume k: "0 < k" "k < 7"
  then consider "k = 1" | "k = 2" | "k = 3" | "k = 4" | "k = 5" | "k = 6" by linarith
  then show "is_valid_flit long_packet_window (7 * int j + k) = Some False"
  proof cases
    case 1
    then show ?thesis using d [of 1] p5
      by (simp add: is_valid_flit_def TOKENS_PER_BIGTOKEN_7 Let_def codec_values meta_offsets)
  next
    case 2
    then show ?thesis using d [of 2] p6
      by (simp add: is_valid_flit_def TOKENS_PER_BIGTOKEN_7 Let_def codec_values meta_offsets)
  next
    case 3
    then show ?thesis using d [of 3] p6
      by (simp add: is_valid_flit_def TOKENS_PER_BIGTOKEN_7 Let_def codec_values meta_offsets)
  next
    case 4
    then show ?thesis using d [of 4] p6
      by (simp add: is_valid_flit_def TOKENS_PER_BIGTOKEN_7 Let_def codec_values meta_offsets)
  next
    case 5
    then show ?thesis using d [of 5] p7
      by (simp add: is_valid_flit_def TOKENS_PER_BIGTOKEN_7 Let_def codec_values meta_offsets)
  next
    case 6
    then show ?thesis using d [of 6] p7
      by (simp add: is_valid_flit_def TOKENS_PER_BIGTOKEN_7 Let_def codec_values meta_offsets)
  qed
qed

lemma long_config: "NUM_TOKENS long_packet_config = 1407"
  "ETH_MAX_WORDS long_packet_config + ETH_EXTRA_FLITS long_packet_config = 200"
  by (simp_all add: long_packet_config_def two_port_config_def NUM_TOKENS_def)

lemma fits_long_skip:
  assumes j: "j < 201" and k: "0 < k" "k < 7" and k': "k' = k + 1"
  shows "fits long_packet_config long_packet_window (7 * int j + k) n
       = fits long_packet_config long_packet_window (7 * int j + k') n"
proof -
  have "7 * int j + k < NUM_TOKENS long_packet_config"
    unfolding long_config using j k by linarith
  then show ?thesis
    unfolding k' using long_window_tokens(3) [OF j k]
    by (subst fits.simps) (simp add: add.assoc)
qed

lemma fits_long_bigtoken:
  assumes j: "j < 201"
    and f: "fits long_packet_config long_packet_window (7 * int j) n"
  shows "n < 200 \<and> fits long_packet_config long_packet_window (7 * int (Suc j)) (n + 1)"
proof -
  have lt: "7 * int j < NUM_TOKENS long_packet_config"
    unfolding long_config using j by linarith
  from f have a: "n < 200 \<and> fits long_packet_config long_packet_window (7 * int j + 1) (n + 1)"
    using lt long_window_tokens(1,2) [OF j] long_config(2)
    by (subst (asm) fits.simps) simp
  have b: "fits long_packet_config long_packet_window (7 * int j + 1) (n + 1)
      = fits long_packet_config long_packet_window (7 * int j + 7) (n + 1)"
    by (simp only: fits_long_skip [OF j, of 1 2] fits_long_skip [OF j, of 2 3]
        fits_long_skip [OF j, of 3 4] fits_long_skip [OF j, of 4 5]
        fits_long_skip [OF j, of 5 6] fits_long_skip [OF j, of 6 7])
  have e: "7 * int (Suc j) = 7 * int j + 7" by simp
  show ?thesis unfolding e using a b by blast
qed

lemma fits_long_bound:
  "j \<le> 201 \<Longrightarrow> fits long_packet_config long_packet_window (7 * int j) n \<Longrightarrow>
   n + int (201 - j) \<le> 200 \<or> j = 201"
proof (induction "201 - j" arbitrary: j n)
  case 0
  then show ?case by simp
next
  case (Suc m)
  then have j: "j < 201" by simp
  from fits_long_bigtoken [OF j Suc.prems(2)]
  have n: "n < 200" and f: "fits long_packet_config long_packet_window (7 * int (Suc j)) (n + 1)"
    by simp_all
  have "m = 201 - Suc j" using Suc.hyps(2) by simp
  from Suc.hyps(1) [OF this _ f] j
  have "n + 1 + int (201 - Suc j) \<le> 200 \<or> Suc j = 201" by simp
  then show ?case using n j by auto
qed

lemma long_packet_does_not_fit:
  "\<not> fits long_packet_config long_packet_window 0 0"
  using fits_long_bound [of 0 0] by auto

lemma long_packet_setup:
  "port_ready long_packet_config long_packet_arrives 0"
  "current_input_buf (ports long_packet_arrives ! 0) = long_packet_window"
  "window_ok long_packet_config long_packet_window"
  "amt_in_progress long_packet_arrives 0 = 0"
proof -
  have l: "int (length long_packet_window) = 201 * 64"
    by (simp add: long_packet_window_def length_concat bigtoken_byte5_nth sum_list_replicate)
  show "port_ready long_packet_config long_packet_arrives 0"
    "current_input_buf (ports long_packet_arrives ! 0) = long_packet_window"
    "amt_in_progress long_packet_arrives 0 = 0"
    by (simp_all add: port_ready_def amt_in_progress_def port_ref_def long_packet_arrives_def
        idle_port_def)
  show "window_ok long_packet_config long_packet_window"
    unfolding window_ok_def l long_config
    by (simp add: TOKENS_PER_BIGTOKEN_7 codec_consts)
qed

text \<open>
  A window of 201 big-tokens, each with one valid flit that is not last: the 201st copy
  is at index \<open>amtwritten = 200 = ETH_MAX_WORDS + ETH_EXTRA_FLITS\<close>.
\<close>

theorem reassembly_overruns_counterexample:
  "port_ready long_packet_config long_packet_arrives 0
   \<and> window_ok long_packet_config (current_input_buf (ports long_packet_arrives ! nat 0))
   \<and> reassemble_tokens long_packet_config 0 0 long_packet_arrives = Inl PacketOverrun"
proof -
  have "port_ref long_packet_arrives 0 = Some (ports long_packet_arrives ! nat 0)"
    using long_packet_setup(1) by (rule port_ready_port)
  moreover have "current_input_buf (ports long_packet_arrives ! nat 0) = long_packet_window"
    using long_packet_setup(2) by simp
  ultimately have "reassemble_tokens long_packet_config 0 0 long_packet_arrives = Inl PacketOverrun"
    using reassemble_tokens_fits [OF long_packet_setup(3) _ _ long_packet_setup(1), of _ 0]
      long_packet_does_not_fit
    by (simp add: long_packet_setup(4))
  then show ?thesis
    using long_packet_setup by simp
qed

lemma two_flit_setup:
  "port_ready two_port_config two_flit_packet_arrives 0"
  "current_input_buf (ports two_flit_packet_arrives ! 0) = two_flit_window"
  "window_ok two_port_config two_flit_window"
  "amt_in_progress two_flit_packet_arrives 0 = 0"
  by (simp_all add: port_ready_def amt_in_progress_def port_ref_def two_flit_packet_arrives_def
      idle_port_def window_ok_def two_flit_window_def two_port_config_def NUM_TOKENS_def
      TOKENS_PER_BIGTOKEN_7 codec_consts)

lemma two_flit_fits: "fits two_port_config two_flit_window 0 0"
  by code_simp

theorem reassembly_within_buffer_witness:
  "port_ready two_port_config two_flit_packet_arrives 0
   \<and> window_ok two_port_config (current_input_buf (ports two_flit_packet_arrives ! nat 0))
   \<and> fits two_port_config two_flit_window 0 0
   \<and> (\<exists>s'. reassemble_tokens two_port_config 0 0 two_flit_packet_arrives = Inr s')
   \<and> port_ready long_packet_config long_packet_arrives 0
   \<and> window_ok long_packet_config (current_input_buf (ports long_packet_arrives ! nat 0))
   \<and> \<not> fits long_packet_config long_packet_window 0 0
   \<and> reassemble_tokens long_packet_config 0 0 long_packet_arrives = Inl PacketOverrun"
proof -
  have w2: "window_ok two_port_config (current_input_buf (ports two_flit_packet_arrives ! nat 0))"
    using two_flit_setup(2,3) by simp
  have wl: "window_ok long_packet_config (current_input_buf (ports long_packet_arrives ! nat 0))"
    using long_packet_setup(2,3) by simp
  from reassembly_within_buffer [OF two_flit_setup(1) w2] two_flit_fits
  have a: "\<exists>s'. reassemble_tokens two_port_config 0 0 two_flit_packet_arrives = Inr s'"
    by (simp add: two_flit_setup(2,4))
  from reassembly_within_buffer [OF long_packet_setup(1) wl] long_packet_does_not_fit
  have b: "reassemble_tokens long_packet_config 0 0 long_packet_arrives = Inl PacketOverrun"
    by (simp add: long_packet_setup(2,4))
  show ?thesis
    using a b w2 wl two_flit_setup(1) long_packet_setup(1) two_flit_fits long_packet_does_not_fit
    by simp
qed

text \<open>
  Claim C2 (the code does otherwise). A window written by the codec with a two-flit packet,
  flit 0 valid and flit 1 valid and last: phase 1 takes flit 0 for a last flit, because
  \<^verbatim>\<open>is_last_flit\<close> sees the valid bit of flit 1 in the same byte, and pushes two packets of
  one flit each instead of one packet of two flits.
\<close>

theorem two_flit_packet_is_split:
  "write_token (replicate 64 0) 0 [1, 2, 3, 4, 5, 6, 7, 8] False
     = Some (replicate 5 0 @ [0x08, 0, 0] @ [1, 2, 3, 4, 5, 6, 7, 8] @ replicate 48 0)
   \<and> write_token (replicate 5 0 @ [0x08, 0, 0] @ [1, 2, 3, 4, 5, 6, 7, 8] @ replicate 48 0)
        1 [9, 10, 11, 12, 13, 14, 15, 16] True
     = Some two_flit_window
   \<and> spec_valid_bit two_flit_window 0 \<and> \<not> spec_last_bit two_flit_window 0
   \<and> spec_valid_bit two_flit_window 1 \<and> spec_last_bit two_flit_window 1
   \<and> is_last_flit two_flit_window 0 = Some True
   \<and> reassemble_tokens two_port_config 0 0 two_flit_packet_arrives
     = Inr \<lparr>ports = [idle_port\<lparr>current_input_buf := two_flit_window, inputqueue := [0, 1]\<rparr>,
                     idle_port],
            pkts = [Some \<lparr>timestamp = 10, dat = 0, amtwritten = 1, amtread = 0, sender = 0\<rparr>,
                    Some \<lparr>timestamp = 11, dat = 1, amtwritten = 1, amtread = 0, sender = 0\<rparr>],
            dats = [Some ([1, 2, 3, 4, 5, 6, 7, 8] @ replicate 1592 0),
                    Some ([9, 10, 11, 12, 13, 14, 15, 16] @ replicate 1592 0)],
            this_iter_cycles_start = 0\<rparr>"
  by code_simp

section \<open>Properties of the routing loop\<close>

lemma length_takeWhile_lt: "x \<in> set xs \<Longrightarrow> \<not> P x \<Longrightarrow> length (takeWhile P xs) < length xs"
  by (induction xs) auto

lemma first_greatest_contract: "pq_contract first_greatest"
  unfolding pq_contract_def
proof (intro allI impI)
  fix q :: "tspacket list"
  assume ne: "q \<noteq> []"
  let ?m = "arg_min_list ts_timestamp q"
  let ?P = "\<lambda>x. \<exists>y \<in> set q. tspacket_less x y"
  have m: "?m \<in> set q" using ne by (rule arg_min_list_in)
  have "\<forall>e \<in> set q. ts_timestamp ?m \<le> ts_timestamp e"
    using ne by (simp add: f_arg_min_list_f)
  then have nm: "\<not> ?P ?m" by (auto simp: tspacket_less_def not_less)
  have l: "first_greatest q < length q"
    unfolding first_greatest_def using m nm by (rule length_takeWhile_lt)
  then have "\<not> ?P (q ! first_greatest q)"
    unfolding first_greatest_def by (rule nth_length_takeWhile)
  with l show "first_greatest q < length q
      \<and> (\<forall>e \<in> set q. \<not> tspacket_less (q ! first_greatest q) e)"
    by blast
qed

lemma fill_two_packets:
  "fill_pqueue two_port_config 0 [] two_packets_queued
     = Inr ([\<lparr>ts_timestamp = 15, switchpack = 0\<rparr>, \<lparr>ts_timestamp = 11, switchpack = 1\<rparr>],
            two_packets_queued\<lparr>ports := [idle_port, idle_port]\<rparr>)"
  by (simp add: fill_pqueue.simps two_port_config_def two_packets_queued_def port_ref_def
      pkt_at_def set_port_def idle_port_def)

lemma push_output_result:
  assumes "push_output i a s = Inr s'"
  shows "0 \<le> i" "nat i < length (ports s)"
    "ports s' = (ports s)[nat i := (ports s ! nat i)\<lparr>outputqueue :=
               outputqueue (ports s ! nat i) @ [a]\<rparr>]"
    "pkts s' = pkts s" "dats s' = dats s"
  using assms by (auto simp: push_output_def port_ref_def set_port_def split: if_splits)

lemma kept_refl: "kept s s"
  by (simp add: kept_def)

lemma kept_trans:
  assumes a: "kept s s1" and b: "kept s1 s2"
  shows "kept s s2"
proof -
  have l: "length (pkts s) \<le> length (pkts s1)" "length (pkts s1) \<le> length (pkts s2)"
    "length (dats s) \<le> length (dats s1)" "length (dats s1) \<le> length (dats s2)"
    using a b by (simp_all add: kept_def)
  have p: "pkts s2 ! x = pkts s ! x \<or> pkts s2 ! x = None" if "x < length (pkts s)" for x
  proof -
    have "pkts s1 ! x = pkts s ! x \<or> pkts s1 ! x = None" using a that by (simp add: kept_def)
    moreover have "pkts s2 ! x = pkts s1 ! x \<or> pkts s2 ! x = None"
      using b that l(1) by (simp add: kept_def)
    ultimately show ?thesis by auto
  qed
  have d: "dats s2 ! x = dats s ! x \<or> dats s2 ! x = None" if "x < length (dats s)" for x
  proof -
    have "dats s1 ! x = dats s ! x \<or> dats s1 ! x = None" using a that by (simp add: kept_def)
    moreover have "dats s2 ! x = dats s1 ! x \<or> dats s2 ! x = None"
      using b that l(3) by (simp add: kept_def)
    ultimately show ?thesis by auto
  qed
  show ?thesis unfolding kept_def using l p d by auto
qed

lemma fanned_refl: "fanned t s s"
  by (simp add: fanned_def)

lemma broadcast_to_cases:
  assumes "pkt_at s tsp = Some pk" "broadcast_to cfg tsp i s = Inr s1"
  shows "(i = sender pk \<and> s1 = s)
    \<or> (i \<noteq> sender pk \<and> 0 \<le> i \<and> nat i < length (ports s)
       \<and> ports s1 = (ports s)[nat i := (ports s ! nat i)\<lparr>outputqueue :=
                               outputqueue (ports s ! nat i) @ [length (pkts s)]\<rparr>]
       \<and> pkts s1 = pkts s @ [Some (pk\<lparr>dat := length (dats s)\<rparr>)]
       \<and> (\<exists>copy. dats s1 = dats s @ [Some copy]))"
  using assms
  by (auto simp: broadcast_to_def new_pkt_def new_dat_def push_output_def port_ref_def
      set_port_def split: if_splits option.splits)

lemma broadcast_to_fanned:
  assumes pk: "pkt_at s tsp = Some pk" and run: "broadcast_to cfg tsp i s = Inr s1"
  shows "fanned (timestamp pk) s s1" and "pkt_at s1 tsp = Some pk"
    and "i \<noteq> sender pk \<Longrightarrow> 0 \<le> i \<and> nat i < length (ports s)
          \<and> length (outputqueue (ports s ! nat i)) < length (outputqueue (ports s1 ! nat i))"
proof -
  from broadcast_to_cases [OF pk run]
  consider (same) "i = sender pk" "s1 = s"
    | (copy) "i \<noteq> sender pk" "0 \<le> i" "nat i < length (ports s)"
        "ports s1 = (ports s)[nat i := (ports s ! nat i)\<lparr>outputqueue :=
                               outputqueue (ports s ! nat i) @ [length (pkts s)]\<rparr>]"
        "pkts s1 = pkts s @ [Some (pk\<lparr>dat := length (dats s)\<rparr>)]"
        "\<exists>copy. dats s1 = dats s @ [Some copy]"
    by blast
  then have "fanned (timestamp pk) s s1 \<and> pkt_at s1 tsp = Some pk
     \<and> (i \<noteq> sender pk \<longrightarrow> 0 \<le> i \<and> nat i < length (ports s)
          \<and> length (outputqueue (ports s ! nat i)) < length (outputqueue (ports s1 ! nat i)))"
  proof cases
    case same
    then show ?thesis using pk by (simp add: fanned_refl)
  next
    case copy
    have f: "fanned (timestamp pk) s s1"
      unfolding fanned_def using copy by (auto simp: nth_list_update)
    have "pkt_at s1 tsp = Some pk"
      using pk copy(5) by (auto simp: pkt_at_def nth_append split: if_splits)
    then show ?thesis using f copy by simp
  qed
  then show "fanned (timestamp pk) s s1" and "pkt_at s1 tsp = Some pk"
    and "i \<noteq> sender pk \<Longrightarrow> 0 \<le> i \<and> nat i < length (ports s)
          \<and> length (outputqueue (ports s ! nat i)) < length (outputqueue (ports s1 ! nat i))"
    by blast+
qed


lemma fanned_ports: "fanned t s s' \<Longrightarrow> length (ports s') = length (ports s)"
  by (simp add: fanned_def)

lemma fanned_pkts_length: "fanned t s s' \<Longrightarrow> length (pkts s) \<le> length (pkts s')"
  by (auto simp: fanned_def)

lemma fanned_queue_length:
  "fanned t s s' \<Longrightarrow> p < length (ports s) \<Longrightarrow>
   length (outputqueue (ports s ! p)) \<le> length (outputqueue (ports s' ! p))"
  by (fastforce simp: fanned_def)

lemma fanned_trans:
  assumes a: "fanned t s s1" and b: "fanned t s1 s2"
  shows "fanned t s s2"
proof -
  from a obtain xs ds where 1: "length (ports s1) = length (ports s)"
    "pkts s1 = pkts s @ xs" "\<forall>x \<in> set xs. \<exists>pk. x = Some pk \<and> timestamp pk = t"
    "dats s1 = dats s @ ds"
    by (auto simp: fanned_def)
  from b obtain ys es where 2: "length (ports s2) = length (ports s1)"
    "pkts s2 = pkts s1 @ ys" "\<forall>x \<in> set ys. \<exists>pk. x = Some pk \<and> timestamp pk = t"
    "dats s2 = dats s1 @ es"
    by (auto simp: fanned_def)
  have q: "\<exists>ns. outputqueue (ports s2 ! p) = outputqueue (ports s ! p) @ ns
            \<and> (\<forall>x \<in> set ns. length (pkts s) \<le> x \<and> x < length (pkts s2))"
    if p: "p < length (ports s)" for p
  proof -
    from a p obtain ns where n: "outputqueue (ports s1 ! p) = outputqueue (ports s ! p) @ ns"
      "\<forall>x \<in> set ns. length (pkts s) \<le> x \<and> x < length (pkts s1)"
      by (auto simp: fanned_def)
    from b p 1(1) obtain ms where m: "outputqueue (ports s2 ! p) = outputqueue (ports s1 ! p) @ ms"
      "\<forall>x \<in> set ms. length (pkts s1) \<le> x \<and> x < length (pkts s2)"
      by (auto simp: fanned_def)
    have "outputqueue (ports s2 ! p) = outputqueue (ports s ! p) @ (ns @ ms)"
      using n(1) m(1) by simp
    moreover have "\<forall>x \<in> set (ns @ ms). length (pkts s) \<le> x \<and> x < length (pkts s2)"
      using n(2) m(2) 1(2) 2(2) by fastforce
    ultimately show ?thesis by blast
  qed
  have "pkts s2 = pkts s @ (xs @ ys)" using 1(2) 2(2) by simp
  moreover have "\<forall>x \<in> set (xs @ ys). \<exists>pk. x = Some pk \<and> timestamp pk = t"
    using 1(3) 2(3) by auto
  moreover have "dats s2 = dats s @ (ds @ es)" using 1(4) 2(4) by simp
  ultimately show ?thesis
    unfolding fanned_def using 1(1) 2(1) q by (intro conjI) (simp, blast, blast, blast)
qed

lemma broadcast_loop_unfold:
  assumes "int n < NUMDOWNLINKS cfg + ADDUPLINK cfg" "broadcast_loop cfg tsp (int n) s = Inr s'"
  shows "\<exists>s1. broadcast_to cfg tsp (int n) s = Inr s1
            \<and> broadcast_loop cfg tsp (int (Suc n)) s1 = Inr s'"
proof (cases "broadcast_to cfg tsp (int n) s")
  case (Inl e)
  with assms show ?thesis by (subst (asm) broadcast_loop.simps) simp
next
  case (Inr s1)
  with assms have "broadcast_loop cfg tsp (int n + 1) s1 = Inr s'"
    by (subst (asm) broadcast_loop.simps) simp
  then show ?thesis using Inr by (simp add: add.commute)
qed

lemma broadcast_loop_fanned:
  assumes pk: "pkt_at s tsp = Some pk" and run: "broadcast_loop cfg tsp (int n) s = Inr s'"
  shows "fanned (timestamp pk) s s' \<and> pkt_at s' tsp = Some pk
     \<and> (\<forall>p. n \<le> p \<and> int p < NUMDOWNLINKS cfg + ADDUPLINK cfg \<and> int p \<noteq> sender pk
           \<longrightarrow> p < length (ports s)
               \<and> length (outputqueue (ports s ! p)) < length (outputqueue (ports s' ! p)))"
  using pk run
proof (induction "nat (NUMDOWNLINKS cfg + ADDUPLINK cfg) - n" arbitrary: n s)
  case 0
  then have "\<not> int n < NUMDOWNLINKS cfg + ADDUPLINK cfg" by linarith
  moreover from this have "s' = s" using "0.prems"(2) by (simp add: broadcast_loop_done)
  ultimately show ?case using "0.prems"(1) by (auto simp: fanned_refl)
next
  case (Suc m)
  then have lt: "int n < NUMDOWNLINKS cfg + ADDUPLINK cfg" by linarith
  from broadcast_loop_unfold [OF lt Suc.prems(2)] obtain s1 where
    st: "broadcast_to cfg tsp (int n) s = Inr s1"
    and rest: "broadcast_loop cfg tsp (int (Suc n)) s1 = Inr s'" by blast
  note f1 = broadcast_to_fanned [OF Suc.prems(1) st]
  have m: "m = nat (NUMDOWNLINKS cfg + ADDUPLINK cfg) - Suc n" using Suc.hyps(2) by simp
  from Suc.hyps(1) [OF m f1(2) rest]
  have f2: "fanned (timestamp pk) s1 s'" and p2: "pkt_at s' tsp = Some pk"
    and g2: "\<And>p. Suc n \<le> p \<Longrightarrow> int p < NUMDOWNLINKS cfg + ADDUPLINK cfg \<Longrightarrow> int p \<noteq> sender pk
        \<Longrightarrow> p < length (ports s1)
            \<and> length (outputqueue (ports s1 ! p)) < length (outputqueue (ports s' ! p))"
    by blast+
  have pl: "length (ports s1) = length (ports s)" using f1(1) by (rule fanned_ports)
  have g: "p < length (ports s)
        \<and> length (outputqueue (ports s ! p)) < length (outputqueue (ports s' ! p))"
    if p: "n \<le> p" "int p < NUMDOWNLINKS cfg + ADDUPLINK cfg" "int p \<noteq> sender pk" for p
  proof (cases "p = n")
    case True
    from f1(3) [of ] p(3) True
    have a: "n < length (ports s)"
      "length (outputqueue (ports s ! n)) < length (outputqueue (ports s1 ! n))"
      by auto
    have "length (outputqueue (ports s1 ! n)) \<le> length (outputqueue (ports s' ! n))"
      using fanned_queue_length [OF f2] a(1) pl by simp
    then show ?thesis using a True by simp
  next
    case False
    then have "Suc n \<le> p" using p(1) by simp
    from g2 [OF this p(2,3)]
    have a: "p < length (ports s1)"
      "length (outputqueue (ports s1 ! p)) < length (outputqueue (ports s' ! p))" by simp_all
    have "length (outputqueue (ports s ! p)) \<le> length (outputqueue (ports s1 ! p))"
      using fanned_queue_length [OF f1(1)] a(1) pl by simp
    then show ?thesis using a pl by simp
  qed
  from fanned_trans [OF f1(1) f2] p2 g show ?case by blast
qed

lemma free_packet_effect:
  assumes "free_packet tsp s1 = Inr s'"
  shows "\<exists>pk. pkt_at s1 tsp = Some pk \<and> ports s' = ports s1
           \<and> pkts s' = (pkts s1)[tsp := None] \<and> dats s' = (dats s1)[dat pk := None]"
  using assms by (auto simp: free_packet_def split: option.splits)


lemma cell_after_free:
  "a < length xs \<Longrightarrow> (xs @ ys)[i := None] ! a = xs ! a \<or> (xs @ ys)[i := None] ! a = None"
  by (cases "i = a") (simp_all add: nth_append)

lemma route_packet_unfold:
  assumes "route_packet cfg r tsp s = Inr s'"
  shows "\<exists>pk bytes d. pkt_at s tsp = Some pk \<and> dat_at s (dat pk) = Some bytes
      \<and> get_port_from_flit cfg r bytes = Inr d
      \<and> (d \<noteq> BROADCAST_ADJUSTED \<longrightarrow> push_output (uint d) tsp s = Inr s')
      \<and> (d = BROADCAST_ADJUSTED \<longrightarrow>
           (\<exists>s1. broadcast_loop cfg tsp 0 s = Inr s1 \<and> free_packet tsp s1 = Inr s'))"
  using assms by (auto simp: route_packet_def split: option.splits sum.splits if_splits)

lemma route_packet_effect:
  assumes "route_packet cfg r tsp s = Inr s'"
  shows "\<exists>pk bytes d. pkt_at s tsp = Some pk \<and> dat_at s (dat pk) = Some bytes
      \<and> get_port_from_flit cfg r bytes = Inr d
      \<and> length (ports s') = length (ports s) \<and> kept s s'
      \<and> (\<forall>p < length (ports s). \<exists>ns.
            outputqueue (ports s' ! p) = outputqueue (ports s ! p) @ ns
            \<and> (\<forall>a \<in> set ns. stamp s' a = Some (timestamp pk)))
      \<and> (\<forall>p \<in> set (destinations cfg d (sender pk)). p < length (ports s)
            \<and> length (outputqueue (ports s ! p)) < length (outputqueue (ports s' ! p)))"
proof -
  from route_packet_unfold [OF assms] obtain pk bytes d where
    pk: "pkt_at s tsp = Some pk" and bs: "dat_at s (dat pk) = Some bytes"
    and d: "get_port_from_flit cfg r bytes = Inr d"
    and uni: "d \<noteq> BROADCAST_ADJUSTED \<Longrightarrow> push_output (uint d) tsp s = Inr s'"
    and bro: "d = BROADCAST_ADJUSTED \<Longrightarrow>
           \<exists>s1. broadcast_loop cfg tsp 0 s = Inr s1 \<and> free_packet tsp s1 = Inr s'"
    by blast
  have tl: "tsp < length (pkts s)" "pkts s ! tsp = Some pk"
    using pk by (simp_all add: pkt_at_Some)
  have "length (ports s') = length (ports s) \<and> kept s s'
      \<and> (\<forall>p < length (ports s). \<exists>ns.
            outputqueue (ports s' ! p) = outputqueue (ports s ! p) @ ns
            \<and> (\<forall>a \<in> set ns. stamp s' a = Some (timestamp pk)))
      \<and> (\<forall>p \<in> set (destinations cfg d (sender pk)). p < length (ports s)
            \<and> length (outputqueue (ports s ! p)) < length (outputqueue (ports s' ! p)))"
  proof (cases "d = BROADCAST_ADJUSTED")
    case False
    note po = push_output_result [OF uni [OF False]]
    have n: "nat (uint d) = unat d" by simp
    have st: "stamp s' tsp = Some (timestamp pk)"
      using tl po(4) by (simp add: stamp_def pkt_at_def)
    have k: "kept s s'" using po(4,5) by (simp add: kept_def)
    have q: "\<exists>ns. outputqueue (ports s' ! p) = outputqueue (ports s ! p) @ ns
            \<and> (\<forall>a \<in> set ns. stamp s' a = Some (timestamp pk))"
      if "p < length (ports s)" for p
    proof (cases "p = unat d")
      case True
      then have "outputqueue (ports s' ! p) = outputqueue (ports s ! p) @ [tsp]"
        using po(2,3) that by simp
      moreover have "\<forall>a \<in> set [tsp]. stamp s' a = Some (timestamp pk)" using st by simp
      ultimately show ?thesis by (intro exI [of _ "[tsp]"] conjI)
    next
      case False
      then have "outputqueue (ports s' ! p) = outputqueue (ports s ! p) @ []"
        using po(3) that by simp
      moreover have "\<forall>a \<in> set ([] :: nat list). stamp s' a = Some (timestamp pk)" by simp
      ultimately show ?thesis by (intro exI [of _ "[]"] conjI)
    qed
    have g: "\<forall>p \<in> set (destinations cfg d (sender pk)). p < length (ports s)
        \<and> length (outputqueue (ports s ! p)) < length (outputqueue (ports s' ! p))"
      using po(2,3) False by (simp add: destinations_def)
    have l: "length (ports s') = length (ports s)" using po(3) by simp
    from l k q g show ?thesis by (intro conjI allI impI) blast+
  next
    case True
    from bro [OF True] obtain s1 where
      lo: "broadcast_loop cfg tsp (int 0) s = Inr s1" and fr: "free_packet tsp s1 = Inr s'"
      by auto
    from broadcast_loop_fanned [OF pk lo]
    have f: "fanned (timestamp pk) s s1" and p1: "pkt_at s1 tsp = Some pk"
      and g1: "\<And>p. int p < NUMDOWNLINKS cfg + ADDUPLINK cfg \<Longrightarrow> int p \<noteq> sender pk
           \<Longrightarrow> p < length (ports s)
               \<and> length (outputqueue (ports s ! p)) < length (outputqueue (ports s1 ! p))"
      by auto
    from free_packet_effect [OF fr] p1
    have e: "ports s' = ports s1" "pkts s' = (pkts s1)[tsp := None]"
      "dats s' = (dats s1)[dat pk := None]"
      by auto
    from f obtain xs ds where x: "pkts s1 = pkts s @ xs"
      "\<forall>x \<in> set xs. \<exists>pk'. x = Some pk' \<and> timestamp pk' = timestamp pk"
      "dats s1 = dats s @ ds"
      by (auto simp: fanned_def)
    have k: "kept s s'"
      unfolding kept_def using e(2,3) x(1,3) by (simp add: cell_after_free)
    have q: "\<exists>ns. outputqueue (ports s' ! p) = outputqueue (ports s ! p) @ ns
            \<and> (\<forall>a \<in> set ns. stamp s' a = Some (timestamp pk))"
      if p: "p < length (ports s)" for p
    proof -
      from f p obtain ns where n: "outputqueue (ports s1 ! p) = outputqueue (ports s ! p) @ ns"
        "\<forall>a \<in> set ns. length (pkts s) \<le> a \<and> a < length (pkts s1)"
        by (auto simp: fanned_def)
      have "stamp s' a = Some (timestamp pk)" if a: "a \<in> set ns" for a
      proof -
        from n(2) a have b: "length (pkts s) \<le> a" "a < length (pkts s1)" by auto
        then have "a \<noteq> tsp" using tl(1) by simp
        then have "pkts s' ! a = pkts s1 ! a" using e(2) by simp
        also have "\<dots> = xs ! (a - length (pkts s))" using b x(1) by (simp add: nth_append)
        finally have c: "pkts s' ! a = xs ! (a - length (pkts s))" .
        have "xs ! (a - length (pkts s)) \<in> set xs" using b x(1) by simp
        with x(2) obtain pk' where "xs ! (a - length (pkts s)) = Some pk'"
          "timestamp pk' = timestamp pk" by blast
        then show ?thesis using c b(2) e(2) by (simp add: stamp_def pkt_at_def)
      qed
      then show ?thesis using n(1) e(1) by auto
    qed
    have g: "p < length (ports s)
        \<and> length (outputqueue (ports s ! p)) < length (outputqueue (ports s' ! p))"
      if "p \<in> set (destinations cfg d (sender pk))" for p
    proof -
      from that True have "int p < NUMDOWNLINKS cfg + ADDUPLINK cfg" "int p \<noteq> sender pk"
        by (auto simp: destinations_def)
      from g1 [OF this] show ?thesis using e(1) by simp
    qed
    have l: "length (ports s') = length (ports s)" using e(1) fanned_ports [OF f] by simp
    from l k q g show ?thesis by (intro conjI allI impI ballI) blast+
  qed
  then show ?thesis using pk bs d by blast
qed

lemma filter_port_events:
  "map ev_packet (filter (\<lambda>x. ev_port x = p)
      (concat (map (\<lambda>q. map (\<lambda>a. \<lparr>ev_port = q, ev_packet = a, ev_timestamp = f a\<rparr>) (h q))
                   [0..<n])))
   = (if p < n then h p else [])"
proof (induction n)
  case 0
  show ?case by simp
next
  case (Suc n)
  have "map ev_packet (filter (\<lambda>x. ev_port x = p)
          (map (\<lambda>a. \<lparr>ev_port = n, ev_packet = a, ev_timestamp = f a\<rparr>) (h n)))
        = (if p = n then h n else [])"
    by (simp add: filter_map comp_def)
  with Suc show ?case by auto
qed

lemma pushes_filter:
  "p < length (ports s') \<Longrightarrow>
   map ev_packet (filter (\<lambda>x. ev_port x = p) (pushes s s')) = appended s s' p"
  unfolding pushes_def by (simp add: filter_port_events)

lemma pushes_member:
  "x \<in> set (pushes s s') \<longleftrightarrow>
   (\<exists>p < length (ports s'). \<exists>a \<in> set (appended s s' p).
      x = \<lparr>ev_port = p, ev_packet = a, ev_timestamp = stamp s' a\<rparr>)"
  unfolding pushes_def by auto

lemma route_packet_pushes:
  assumes "route_packet cfg r tsp s = Inr s'"
  shows "\<exists>pk bytes d. pkt_at s tsp = Some pk \<and> dat_at s (dat pk) = Some bytes
      \<and> get_port_from_flit cfg r bytes = Inr d
      \<and> length (ports s') = length (ports s) \<and> kept s s'
      \<and> (\<forall>x \<in> set (pushes s s'). ev_timestamp x = Some (timestamp pk))
      \<and> (\<forall>p < length (ports s).
            outputqueue (ports s' ! p) = outputqueue (ports s ! p)
              @ map ev_packet (filter (\<lambda>x. ev_port x = p) (pushes s s')))
      \<and> (\<forall>p \<in> set (destinations cfg d (sender pk)).
            \<exists>a. \<lparr>ev_port = p, ev_packet = a, ev_timestamp = Some (timestamp pk)\<rparr>
                  \<in> set (pushes s s'))"
proof -
  from route_packet_effect [OF assms] obtain pk bytes d where
    pk: "pkt_at s tsp = Some pk" and bs: "dat_at s (dat pk) = Some bytes"
    and d: "get_port_from_flit cfg r bytes = Inr d"
    and l: "length (ports s') = length (ports s)" and k: "kept s s'"
    and q: "\<And>p. p < length (ports s) \<Longrightarrow> \<exists>ns.
            outputqueue (ports s' ! p) = outputqueue (ports s ! p) @ ns
            \<and> (\<forall>a \<in> set ns. stamp s' a = Some (timestamp pk))"
    and g: "\<And>p. p \<in> set (destinations cfg d (sender pk)) \<Longrightarrow> p < length (ports s)
            \<and> length (outputqueue (ports s ! p)) < length (outputqueue (ports s' ! p))"
    by blast
  have ap: "outputqueue (ports s' ! p) = outputqueue (ports s ! p) @ appended s s' p
      \<and> (\<forall>a \<in> set (appended s s' p). stamp s' a = Some (timestamp pk))"
    if p: "p < length (ports s)" for p
  proof -
    from q [OF p] obtain ns where n: "outputqueue (ports s' ! p) = outputqueue (ports s ! p) @ ns"
      "\<forall>a \<in> set ns. stamp s' a = Some (timestamp pk)" by blast
    then have "appended s s' p = ns" using p by (simp add: appended_def)
    then show ?thesis using n by simp
  qed
  have a: "\<forall>x \<in> set (pushes s s'). ev_timestamp x = Some (timestamp pk)"
    using ap l by (auto simp: pushes_member)
  have b: "\<forall>p < length (ports s).
      outputqueue (ports s' ! p) = outputqueue (ports s ! p)
        @ map ev_packet (filter (\<lambda>x. ev_port x = p) (pushes s s'))"
    using ap l by (simp add: pushes_filter)
  have c: "\<exists>a. \<lparr>ev_port = p, ev_packet = a, ev_timestamp = Some (timestamp pk)\<rparr>
                  \<in> set (pushes s s')"
    if "p \<in> set (destinations cfg d (sender pk))" for p
  proof -
    from g [OF that] have p: "p < length (ports s)"
      and gr: "length (outputqueue (ports s ! p)) < length (outputqueue (ports s' ! p))"
      by simp_all
    from ap [OF p] gr have "appended s s' p \<noteq> []" by auto
    then have "hd (appended s s' p) \<in> set (appended s s' p)" by (rule hd_in_set)
    then obtain x where x: "x \<in> set (appended s s' p)" ..
    with ap [OF p] have "stamp s' x = Some (timestamp pk)" by simp
    with x p l have "\<lparr>ev_port = p, ev_packet = x, ev_timestamp = Some (timestamp pk)\<rparr>
        \<in> set (pushes s s')"
      unfolding pushes_member by (intro exI [of _ p] conjI bexI [of _ x]) simp_all
    then show ?thesis ..
  qed
  from pk bs d l k a b c show ?thesis by blast
qed


lemma kept_pkt:
  assumes "kept s0 s" "pkt_at s0 a = Some pk0" "pkt_at s a = Some pk"
  shows "pk = pk0"
proof -
  have a: "a < length (pkts s0)" "pkts s0 ! a = Some pk0" using assms(2) by (simp_all add: pkt_at_Some)
  have "pkts s ! a = Some pk" using assms(3) by (simp add: pkt_at_Some)
  moreover have "pkts s ! a = pkts s0 ! a \<or> pkts s ! a = None"
    using assms(1) a(1) by (simp add: kept_def)
  ultimately show ?thesis using a(2) by auto
qed

lemma kept_dat:
  assumes "kept s0 s" "dat_at s0 a = Some d0" "dat_at s a = Some d"
  shows "d = d0"
proof -
  have a: "a < length (dats s0)" "dats s0 ! a = Some d0" using assms(2) by (simp_all add: dat_at_Some)
  have "dats s ! a = Some d" using assms(3) by (simp add: dat_at_Some)
  moreover have "dats s ! a = dats s0 ! a \<or> dats s ! a = None"
    using assms(1) a(1) by (simp add: kept_def)
  ultimately show ?thesis using a(2) by auto
qed

lemma map_all_equal: "\<forall>x \<in> set xs. f x = c \<Longrightarrow> map f xs = replicate (length xs) c"
  by (induction xs) auto

lemma route_in_order_unfold:
  assumes "route_in_order cfg rnd k (e # es) s = Inr s'"
  shows "\<exists>s1. route_packet cfg (rnd k) (switchpack e) s = Inr s1
            \<and> route_in_order cfg rnd (Suc k) es s1 = Inr s'"
  using assms by (auto split: sum.splits)

lemma route_in_order_trace:
  "route_in_order cfg rnd k es s = Inr s' \<Longrightarrow> kept s0 s \<Longrightarrow>
   \<forall>e \<in> set es. \<exists>pk. pkt_at s0 (switchpack e) = Some pk \<and> timestamp pk = ts_timestamp e \<Longrightarrow>
   length (ports s') = length (ports s)
   \<and> (\<forall>p < length (ports s).
         outputqueue (ports s' ! p) = outputqueue (ports s ! p)
           @ map ev_packet (filter (\<lambda>x. ev_port x = p) (push_trace cfg rnd k es s)))
   \<and> (\<exists>tl. map ev_timestamp (push_trace cfg rnd k es s) = map Some tl
           \<and> set tl \<subseteq> ts_timestamp ` set es
           \<and> (sorted_wrt (\<lambda>a b. ts_timestamp a \<le> ts_timestamp b) es \<longrightarrow> sorted tl))
   \<and> (\<forall>j < length es. \<forall>pk bytes d.
         pkt_at s0 (switchpack (es ! j)) = Some pk \<longrightarrow> dat_at s0 (dat pk) = Some bytes \<longrightarrow>
         get_port_from_flit cfg (rnd (k + j)) bytes = Inr d \<longrightarrow>
         (\<forall>p \<in> set (destinations cfg d (sender pk)).
            \<exists>a. \<lparr>ev_port = p, ev_packet = a, ev_timestamp = Some (timestamp pk)\<rparr>
                  \<in> set (push_trace cfg rnd k es s)))"
proof (induction es arbitrary: k s)
  case Nil
  then show ?case by simp
next
  case (Cons e es)
  from route_in_order_unfold [OF Cons.prems(1)] obtain s1 where
    st: "route_packet cfg (rnd k) (switchpack e) s = Inr s1"
    and rest: "route_in_order cfg rnd (Suc k) es s1 = Inr s'" by blast
  from route_packet_pushes [OF st] obtain pk1 bytes1 d1 where
    pk1: "pkt_at s (switchpack e) = Some pk1" and bs1: "dat_at s (dat pk1) = Some bytes1"
    and d1: "get_port_from_flit cfg (rnd k) bytes1 = Inr d1"
    and l1: "length (ports s1) = length (ports s)" and k1: "kept s s1"
    and a1: "\<forall>x \<in> set (pushes s s1). ev_timestamp x = Some (timestamp pk1)"
    and b1: "\<And>p. p < length (ports s) \<Longrightarrow>
            outputqueue (ports s1 ! p) = outputqueue (ports s ! p)
              @ map ev_packet (filter (\<lambda>x. ev_port x = p) (pushes s s1))"
    and dst: "\<And>p. p \<in> set (destinations cfg d1 (sender pk1)) \<Longrightarrow>
            \<exists>a. \<lparr>ev_port = p, ev_packet = a, ev_timestamp = Some (timestamp pk1)\<rparr>
                  \<in> set (pushes s s1)"
    by blast
  let ?rest = "push_trace cfg rnd (Suc k) es s1"
  have tr: "push_trace cfg rnd k (e # es) s = pushes s s1 @ ?rest" using st by simp
  have k01: "kept s0 s1" using Cons.prems(2) k1 by (rule kept_trans)
  have K: "\<forall>e \<in> set es. \<exists>pk. pkt_at s0 (switchpack e) = Some pk \<and> timestamp pk = ts_timestamp e"
    using Cons.prems(3) by simp
  from Cons.prems(3) obtain pk0 where pk0: "pkt_at s0 (switchpack e) = Some pk0"
    "timestamp pk0 = ts_timestamp e" by auto
  have same: "pk1 = pk0" using Cons.prems(2) pk0(1) pk1 by (rule kept_pkt)
  from Cons.IH [OF rest k01 K]
  have i1: "length (ports s') = length (ports s1)"
    and i2: "\<And>p. p < length (ports s1) \<Longrightarrow>
         outputqueue (ports s' ! p) = outputqueue (ports s1 ! p)
           @ map ev_packet (filter (\<lambda>x. ev_port x = p) ?rest)"
    and i3: "\<exists>tl. map ev_timestamp ?rest = map Some tl
           \<and> set tl \<subseteq> ts_timestamp ` set es
           \<and> (sorted_wrt (\<lambda>a b. ts_timestamp a \<le> ts_timestamp b) es \<longrightarrow> sorted tl)"
    and i4: "\<And>j pk bytes d p. j < length es \<Longrightarrow>
         pkt_at s0 (switchpack (es ! j)) = Some pk \<Longrightarrow> dat_at s0 (dat pk) = Some bytes \<Longrightarrow>
         get_port_from_flit cfg (rnd (Suc k + j)) bytes = Inr d \<Longrightarrow>
         p \<in> set (destinations cfg d (sender pk)) \<Longrightarrow>
            \<exists>a. \<lparr>ev_port = p, ev_packet = a, ev_timestamp = Some (timestamp pk)\<rparr> \<in> set ?rest"
    by blast+
  have c1: "length (ports s') = length (ports s)" using i1 l1 by simp
  have c2: "\<forall>p < length (ports s).
         outputqueue (ports s' ! p) = outputqueue (ports s ! p)
           @ map ev_packet (filter (\<lambda>x. ev_port x = p) (push_trace cfg rnd k (e # es) s))"
    unfolding tr using i2 b1 l1 by simp
  have c3: "\<exists>tl. map ev_timestamp (push_trace cfg rnd k (e # es) s) = map Some tl
           \<and> set tl \<subseteq> ts_timestamp ` set (e # es)
           \<and> (sorted_wrt (\<lambda>a b. ts_timestamp a \<le> ts_timestamp b) (e # es) \<longrightarrow> sorted tl)"
  proof -
    from i3 obtain tl where tl: "map ev_timestamp ?rest = map Some tl"
      "set tl \<subseteq> ts_timestamp ` set es"
      "sorted_wrt (\<lambda>a b. ts_timestamp a \<le> ts_timestamp b) es \<longrightarrow> sorted tl" by blast
    let ?n = "length (pushes s s1)"
    let ?tl = "replicate ?n (ts_timestamp e) @ tl"
    have "map ev_timestamp (pushes s s1) = replicate ?n (Some (ts_timestamp e))"
      using a1 same pk0(2) by (intro map_all_equal) simp
    then have m: "map ev_timestamp (push_trace cfg rnd k (e # es) s) = map Some ?tl"
      unfolding tr using tl(1) by simp
    have su: "set ?tl \<subseteq> ts_timestamp ` set (e # es)" using tl(2) by auto
    have so: "sorted ?tl" if w: "sorted_wrt (\<lambda>a b. ts_timestamp a \<le> ts_timestamp b) (e # es)"
    proof -
      from w have "\<forall>x \<in> set es. ts_timestamp e \<le> ts_timestamp x" by simp
      with tl(2) have "\<forall>y \<in> set tl. ts_timestamp e \<le> y" by auto
      moreover have "sorted tl" using w tl(3) by simp
      ultimately show ?thesis by (simp add: sorted_append)
    qed
    from m su so show ?thesis by blast
  qed
  have c4: "\<exists>a. \<lparr>ev_port = p, ev_packet = a, ev_timestamp = Some (timestamp pk)\<rparr>
                  \<in> set (push_trace cfg rnd k (e # es) s)"
    if j: "j < length (e # es)" and pk: "pkt_at s0 (switchpack ((e # es) ! j)) = Some pk"
      and bs: "dat_at s0 (dat pk) = Some bytes"
      and d: "get_port_from_flit cfg (rnd (k + j)) bytes = Inr d"
      and p: "p \<in> set (destinations cfg d (sender pk))" for j pk bytes d p
  proof (cases j)
    case 0
    then have e1: "pk1 = pk" using pk pk0(1) same by simp
    have "bytes1 = bytes" using Cons.prems(2) bs bs1 unfolding e1 by (rule kept_dat)
    then have "d1 = d" using d d1 0 by simp
    with dst [of p] p e1 obtain a where
      "\<lparr>ev_port = p, ev_packet = a, ev_timestamp = Some (timestamp pk)\<rparr> \<in> set (pushes s s1)"
      by auto
    then show ?thesis unfolding tr by auto
  next
    case (Suc j')
    then have "j' < length es" "pkt_at s0 (switchpack (es ! j')) = Some pk"
      "get_port_from_flit cfg (rnd (Suc k + j')) bytes = Inr d"
      using j pk d by simp_all
    from i4 [OF this(1,2) bs this(3) p] show ?thesis unfolding tr by auto
  qed
  from c1 c2 c3 c4 show ?case by (intro conjI allI impI ballI) blast+
qed

lemma pop_order_length:
  assumes "pq_contract tp"
  shows "length (pop_order tp q) = length q"
  using pop_order_mset [OF assms, of q] by (metis size_mset)

text \<open>
  Claim C3. Whatever element that \<^verbatim>\<open>operator<\<close> puts below no other \<^verbatim>\<open>top()\<close> hands
  out, and whenever the routing loop runs to its end: the keys in the priority queue built
  from the input queues are the packets' timestamps; the loop pops every element once, in
  nondecreasing timestamp order, and routes each popped packet before it pops the next; the
  pushes the loop makes onto output queues, in the order in which it makes them, are of
  packets with nondecreasing timestamps, so that of two pushes the one of the packet with the
  smaller timestamp comes first; every output queue ends as what it was followed by the
  pointers pushed to its port, in that order; and each popped packet is pushed, with its
  timestamp, to every destination the lookup gives for it, a broadcast to every port below
  \<open>NUMDOWNLINKS + ADDUPLINK\<close> but its sender.
\<close>

theorem routing_in_timestamp_order:
  assumes c: "pq_contract (pq_top env)"
    and f: "fill_pqueue cfg 0 [] s = Inr (pqueue, s2)"
    and r: "route_packets cfg env 0 pqueue s2 = Inr s'"
  shows "(\<forall>e \<in> set pqueue. \<exists>pk. pkt_at s2 (switchpack e) = Some pk
                                \<and> timestamp pk = ts_timestamp e)
       \<and> mset (pop_order (pq_top env) pqueue) = mset pqueue
       \<and> sorted_wrt (\<lambda>a b. ts_timestamp a \<le> ts_timestamp b) (pop_order (pq_top env) pqueue)
       \<and> route_packets cfg env 0 pqueue s2
           = route_in_order cfg (rand_value env) 0 (pop_order (pq_top env) pqueue) s2
       \<and> (\<exists>tl. map ev_timestamp (routing_pushes cfg env pqueue s2) = map Some tl \<and> sorted tl)
       \<and> (\<forall>i j t u. i < length (routing_pushes cfg env pqueue s2)
             \<and> j < length (routing_pushes cfg env pqueue s2)
             \<and> ev_timestamp (routing_pushes cfg env pqueue s2 ! i) = Some t
             \<and> ev_timestamp (routing_pushes cfg env pqueue s2 ! j) = Some u
             \<and> t < u \<longrightarrow> i < j)
       \<and> length (ports s') = length (ports s2)
       \<and> (\<forall>p < length (ports s2).
             outputqueue (ports s' ! p) = outputqueue (ports s2 ! p)
               @ map ev_packet (filter (\<lambda>x. ev_port x = p) (routing_pushes cfg env pqueue s2)))
       \<and> (\<forall>j < length pqueue. \<forall>pk bytes d.
             pkt_at s2 (switchpack (pop_order (pq_top env) pqueue ! j)) = Some pk \<longrightarrow>
             dat_at s2 (dat pk) = Some bytes \<longrightarrow>
             get_port_from_flit cfg (rand_value env j) bytes = Inr d \<longrightarrow>
             (\<forall>p \<in> set (destinations cfg d (sender pk)).
                \<exists>a. \<lparr>ev_port = p, ev_packet = a, ev_timestamp = Some (timestamp pk)\<rparr>
                      \<in> set (routing_pushes cfg env pqueue s2)))"
proof -
  let ?es = "pop_order (pq_top env) pqueue"
  let ?tr = "routing_pushes cfg env pqueue s2"
  note keys = fill_pqueue_keys [OF f]
  have K: "\<forall>e \<in> set pqueue. \<exists>pk. pkt_at s2 (switchpack e) = Some pk
                                \<and> timestamp pk = ts_timestamp e"
    using keys by simp
  have ms: "mset ?es = mset pqueue" using c by (rule pop_order_mset)
  have so: "sorted_wrt (\<lambda>a b. ts_timestamp a \<le> ts_timestamp b) ?es"
    using c by (rule pop_order_sorted)
  have eq: "route_packets cfg env 0 pqueue s2 = route_in_order cfg (rand_value env) 0 ?es s2"
    using c by (rule route_packets_in_order)
  have run: "route_in_order cfg (rand_value env) 0 ?es s2 = Inr s'" using r eq by simp
  have "set ?es = set pqueue" using ms by (metis set_mset_mset)
  then have K': "\<forall>e \<in> set ?es. \<exists>pk. pkt_at s2 (switchpack e) = Some pk
                                \<and> timestamp pk = ts_timestamp e"
    using K by simp
  have len: "length ?es = length pqueue" using c by (rule pop_order_length)
  from route_in_order_trace [OF run kept_refl K']
  have t1: "length (ports s') = length (ports s2)"
    and t2: "\<forall>p < length (ports s2).
         outputqueue (ports s' ! p) = outputqueue (ports s2 ! p)
           @ map ev_packet (filter (\<lambda>x. ev_port x = p) ?tr)"
    and t3: "\<exists>tl. map ev_timestamp ?tr = map Some tl
           \<and> set tl \<subseteq> ts_timestamp ` set ?es
           \<and> (sorted_wrt (\<lambda>a b. ts_timestamp a \<le> ts_timestamp b) ?es \<longrightarrow> sorted tl)"
    and t4: "\<forall>j < length ?es. \<forall>pk bytes d.
         pkt_at s2 (switchpack (?es ! j)) = Some pk \<longrightarrow> dat_at s2 (dat pk) = Some bytes \<longrightarrow>
         get_port_from_flit cfg (rand_value env (0 + j)) bytes = Inr d \<longrightarrow>
         (\<forall>p \<in> set (destinations cfg d (sender pk)).
            \<exists>a. \<lparr>ev_port = p, ev_packet = a, ev_timestamp = Some (timestamp pk)\<rparr> \<in> set ?tr)"
    unfolding routing_pushes_def by blast+
  from t3 so obtain tl where tl: "map ev_timestamp ?tr = map Some tl" "sorted tl" by blast
  have ord: "i < j" if i: "i < length ?tr" and j: "j < length ?tr"
    and t: "ev_timestamp (?tr ! i) = Some t" and u: "ev_timestamp (?tr ! j) = Some u"
    and tu: "t < u" for i j t u
  proof (rule ccontr)
    assume "\<not> i < j"
    then have ji: "j \<le> i" by simp
    have l: "length tl = length ?tr" using tl(1) by (metis length_map)
    have "map ev_timestamp ?tr ! i = Some (tl ! i)" "map ev_timestamp ?tr ! j = Some (tl ! j)"
      using i j l by (simp_all add: tl(1))
    then have "tl ! i = t" "tl ! j = u" using i j t u by simp_all
    moreover have "tl ! j \<le> tl ! i" using tl(2) ji i l by (simp add: sorted_nth_mono)
    ultimately show False using tu by simp
  qed
  have t4': "\<forall>j < length pqueue. \<forall>pk bytes d.
         pkt_at s2 (switchpack (?es ! j)) = Some pk \<longrightarrow> dat_at s2 (dat pk) = Some bytes \<longrightarrow>
         get_port_from_flit cfg (rand_value env j) bytes = Inr d \<longrightarrow>
         (\<forall>p \<in> set (destinations cfg d (sender pk)).
            \<exists>a. \<lparr>ev_port = p, ev_packet = a, ev_timestamp = Some (timestamp pk)\<rparr> \<in> set ?tr)"
    using t4 len by simp
  have t3': "\<exists>tl. map ev_timestamp ?tr = map Some tl \<and> sorted tl" using tl by blast
  have ord': "\<forall>i j t u. i < length ?tr \<and> j < length ?tr
             \<and> ev_timestamp (?tr ! i) = Some t \<and> ev_timestamp (?tr ! j) = Some u
             \<and> t < u \<longrightarrow> i < j"
    using ord by blast
  from K ms so eq t3' ord' t1 t2 t4' show ?thesis by (intro conjI)
qed

lemma route_two_packets:
  "route_packets two_port_config \<lparr>pq_top = first_greatest, rand_value = int\<rparr> 0
        [\<lparr>ts_timestamp = 15, switchpack = 0\<rparr>, \<lparr>ts_timestamp = 11, switchpack = 1\<rparr>]
        (two_packets_queued\<lparr>ports := [idle_port, idle_port]\<rparr>)
     = Inr (two_packets_queued\<lparr>ports := [idle_port, idle_port\<lparr>outputqueue := [1, 0]\<rparr>]\<rparr>)"
  by code_simp

lemma pushes_two_packets:
  "routing_pushes two_port_config \<lparr>pq_top = first_greatest, rand_value = int\<rparr>
        [\<lparr>ts_timestamp = 15, switchpack = 0\<rparr>, \<lparr>ts_timestamp = 11, switchpack = 1\<rparr>]
        (two_packets_queued\<lparr>ports := [idle_port, idle_port]\<rparr>)
     = [\<lparr>ev_port = 1, ev_packet = 1, ev_timestamp = Some 11\<rparr>,
        \<lparr>ev_port = 1, ev_packet = 0, ev_timestamp = Some 15\<rparr>]"
  by code_simp


theorem routing_in_timestamp_order_witness:
  "fill_pqueue two_port_config 0 [] two_packets_queued
     = Inr ([\<lparr>ts_timestamp = 15, switchpack = 0\<rparr>, \<lparr>ts_timestamp = 11, switchpack = 1\<rparr>],
            two_packets_queued\<lparr>ports := [idle_port, idle_port]\<rparr>)
   \<and> route_packets two_port_config \<lparr>pq_top = first_greatest, rand_value = int\<rparr> 0
        [\<lparr>ts_timestamp = 15, switchpack = 0\<rparr>, \<lparr>ts_timestamp = 11, switchpack = 1\<rparr>]
        (two_packets_queued\<lparr>ports := [idle_port, idle_port]\<rparr>)
     = Inr (two_packets_queued\<lparr>ports := [idle_port, idle_port\<lparr>outputqueue := [1, 0]\<rparr>]\<rparr>)
   \<and> pop_order first_greatest
        [\<lparr>ts_timestamp = 15, switchpack = 0\<rparr>, \<lparr>ts_timestamp = 11, switchpack = 1\<rparr>]
     = [\<lparr>ts_timestamp = 11, switchpack = 1\<rparr>, \<lparr>ts_timestamp = 15, switchpack = 0\<rparr>]
   \<and> routing_pushes two_port_config \<lparr>pq_top = first_greatest, rand_value = int\<rparr>
        [\<lparr>ts_timestamp = 15, switchpack = 0\<rparr>, \<lparr>ts_timestamp = 11, switchpack = 1\<rparr>]
        (two_packets_queued\<lparr>ports := [idle_port, idle_port]\<rparr>)
     = [\<lparr>ev_port = 1, ev_packet = 1, ev_timestamp = Some 11\<rparr>,
        \<lparr>ev_port = 1, ev_packet = 0, ev_timestamp = Some 15\<rparr>]
   \<and> outputqueue (ports (two_packets_queued\<lparr>ports :=
          [idle_port, idle_port\<lparr>outputqueue := [1, 0]\<rparr>]\<rparr>) ! 1)
     = outputqueue (ports (two_packets_queued\<lparr>ports := [idle_port, idle_port]\<rparr>) ! 1) @ [1, 0]"
proof -
  let ?env = "\<lparr>pq_top = first_greatest, rand_value = int\<rparr>"
  let ?q = "[\<lparr>ts_timestamp = 15, switchpack = 0\<rparr>, \<lparr>ts_timestamp = 11, switchpack = 1\<rparr>]"
  have c: "pq_contract (pq_top ?env)" by (simp add: first_greatest_contract)
  have r: "route_packets two_port_config ?env 0 ?q
        (two_packets_queued\<lparr>ports := [idle_port, idle_port]\<rparr>)
     = Inr (two_packets_queued\<lparr>ports := [idle_port, idle_port\<lparr>outputqueue := [1, 0]\<rparr>]\<rparr>)"
    by (rule route_two_packets)
  have po: "pop_order first_greatest ?q
      = [\<lparr>ts_timestamp = 11, switchpack = 1\<rparr>, \<lparr>ts_timestamp = 15, switchpack = 0\<rparr>]"
    by code_simp
  from routing_in_timestamp_order [OF c fill_two_packets r]
  have al: "\<forall>p < length (ports (two_packets_queued\<lparr>ports := [idle_port, idle_port]\<rparr>)).
      outputqueue (ports (two_packets_queued\<lparr>ports :=
          [idle_port, idle_port\<lparr>outputqueue := [1, 0]\<rparr>]\<rparr>) ! p)
      = outputqueue (ports (two_packets_queued\<lparr>ports := [idle_port, idle_port]\<rparr>) ! p)
        @ map ev_packet (filter (\<lambda>x. ev_port x = p)
            (routing_pushes two_port_config ?env ?q
               (two_packets_queued\<lparr>ports := [idle_port, idle_port]\<rparr>)))"
    by blast
  have l1: "1 < length (ports (two_packets_queued\<lparr>ports := [idle_port, idle_port]\<rparr>))"
    by simp
  have "outputqueue (ports (two_packets_queued\<lparr>ports :=
          [idle_port, idle_port\<lparr>outputqueue := [1, 0]\<rparr>]\<rparr>) ! 1)
      = outputqueue (ports (two_packets_queued\<lparr>ports := [idle_port, idle_port]\<rparr>) ! 1)
        @ map ev_packet (filter (\<lambda>x. ev_port x = 1)
            (routing_pushes two_port_config ?env ?q
               (two_packets_queued\<lparr>ports := [idle_port, idle_port]\<rparr>)))"
    using al [rule_format, OF l1] .
  then have "outputqueue (ports (two_packets_queued\<lparr>ports :=
          [idle_port, idle_port\<lparr>outputqueue := [1, 0]\<rparr>]\<rparr>) ! 1)
     = outputqueue (ports (two_packets_queued\<lparr>ports := [idle_port, idle_port]\<rparr>) ! 1) @ [1, 0]"
    unfolding pushes_two_packets by simp
  with fill_two_packets r po pushes_two_packets show ?thesis by (intro conjI)
qed

end
